theory Spec2Isabelle
  imports Main
begin

section \<open>The event bus of lithium-core (src/event-bus.js)\<close>

text \<open>
  The bus is a class with static fields only: one registry of channels, one registry of
  instant-event listener sets, the two browser stores and the browser's timers. The
  embedding passes that state explicitly as the record \<open>bus\<close>. The browser clock
  (\<^verbatim>\<open>Date.now()\<close>) is the field \<open>now\<close>, in milliseconds; pending
  \<^verbatim>\<open>setTimeout\<close> calls are the list \<open>timers\<close>. The bus runs in a browser
  (it uses \<^verbatim>\<open>window\<close>, \<^verbatim>\<open>sessionStorage\<close> and \<^verbatim>\<open>localStorage\<close>), and
  timers and stores behave as a browser's do.

  User callbacks are observed through the field \<open>trace\<close>: every call of a hook, a
  subscriber or a listener and every console message appends one time-stamped event.
  A callback guarded by \<^verbatim>\<open>try/catch\<close> in the source is a function to an
  \<open>outcome\<close>; \<^verbatim>\<open>validate\<close> and \<^verbatim>\<open>transform\<close> are not guarded and
  are taken to return. Callbacks do not call back into the bus.
\<close>

subsection \<open>Values and callbacks\<close>

datatype jsval = Undefined | Null | JBool bool | JNum int | JStr string

datatype outcome = Returned | Threw

text \<open>A function object: its identity (what a JS \<^verbatim>\<open>Set\<close> compares) and its behaviour.\<close>

datatype callback = Callback (cb_id: nat) (cb_run: "jsval \<Rightarrow> outcome")

datatype storage_mode = Memory | Session | Local

datatype event =
    HookOnInit string jsval
  | HookOnChange string jsval jsval
  | HookOnClear string
  | SubscriberCall string nat jsval
  | ListenerCall string nat nat jsval
  | ConsoleWarn string jsval
  | ConsoleError string
  | ConsoleLog

text \<open>
  \<open>ListenerCall e w l d\<close>: the wrapper \<open>w\<close> registered for event \<open>e\<close> called the
  listener with identity \<open>l\<close> on \<open>d\<close>. \<open>SubscriberCall c k v\<close>: the subscriber with
  identity \<open>k\<close> of channel \<open>c\<close> was called on \<open>v\<close>. \<open>ConsoleError x\<close>: a
  \<^verbatim>\<open>console.error\<close> whose message names the channel, the event or the store \<open>x\<close>.
\<close>

subsection \<open>Configuration, channels, registrations, timers\<close>

record config =
  initialValue :: jsval
  storage :: "storage_mode option"
  storageKey :: "string option"
  ttl :: "nat option"
  autoCleanup :: bool
  validate :: "(jsval \<Rightarrow> bool) option"
  transform :: "(jsval \<Rightarrow> jsval) option"
  onChange :: "(jsval \<Rightarrow> jsval \<Rightarrow> outcome) option"
  onInit :: "(jsval \<Rightarrow> outcome) option"
  onClear :: "outcome option"
  debounce :: "nat option"
  throttle :: "nat option"

text \<open>The object literal \<^verbatim>\<open>{}\<close>: every field missing.\<close>

definition no_config :: config where
  "no_config = \<lparr>initialValue = Undefined, storage = None, storageKey = None, ttl = None,
     autoCleanup = False, validate = None, transform = None, onChange = None,
     onInit = None, onClear = None, debounce = None, throttle = None\<rparr>"

record channel_rec =
  ch_id :: nat
  ch_signal :: jsval
  ch_storage :: storage_mode
  ch_storageKey :: string
  ch_subscribers :: "callback list"
  ch_ttl :: "nat option"
  ch_autoCleanup :: bool
  ch_createdAt :: nat
  ch_config :: "config option"
  ch_isInitialized :: bool
  ch_timeoutId :: "nat option"
  ch_onChangeDebounceTimer :: "nat option"
  ch_onChangeLastCall :: "nat option"

record options =
  opt_validate :: "(jsval \<Rightarrow> bool) option"
  opt_transform :: "(jsval \<Rightarrow> jsval) option"
  opt_debounce :: "nat option"
  opt_throttle :: "nat option"
  opt_once :: bool

text \<open>
  The closure that \<^verbatim>\<open>on\<close> creates: its captured arguments, the captured
  \<^verbatim>\<open>Set\<close> object \<open>reg_listeners\<close> (an address in \<open>sets\<close>) and its three local
  variables.
\<close>

record registration =
  reg_eventName :: string
  reg_listener :: callback
  reg_options :: "options option"
  reg_listeners :: nat
  debounceTimer :: "nat option"
  lastCallTime :: nat
  hasExecuted :: bool

datatype timer_action =
    TtlClear string
  | OnChangeFire string "jsval \<Rightarrow> jsval \<Rightarrow> outcome" jsval jsval
  | ListenerFire nat jsval

record timer =
  tid :: nat
  due :: nat
  action :: timer_action

text \<open>
  \<open>channels\<close> is the registry \<^verbatim>\<open>EventBus.channels\<close>. A channel object deleted
  from it is still referenced by the unsubscribe handles created for it; it is kept in
  \<open>retired\<close> under its identity \<open>ch_id\<close>. \<open>eventListeners\<close> maps an event name to
  the address of its \<^verbatim>\<open>Set\<close>, \<open>sets\<close> is the store of those sets (wrapper
  identities in insertion order) and \<open>regs\<close> the store of wrapper closures.

  A store entry is the value whose JSON text the browser store holds; \<open>Some Undefined\<close>
  is the text \<^verbatim>\<open>undefined\<close> that \<^verbatim>\<open>setItem(key, undefined)\<close> leaves, which
  \<^verbatim>\<open>JSON.parse\<close> rejects.
\<close>

record bus =
  now :: nat
  initialized :: bool
  channels :: "string \<rightharpoonup> channel_rec"
  retired :: "nat \<rightharpoonup> channel_rec"
  next_obj :: nat
  sessionStorage :: "string \<rightharpoonup> jsval"
  localStorage :: "string \<rightharpoonup> jsval"
  eventListeners :: "string \<rightharpoonup> nat"
  sets :: "nat \<rightharpoonup> nat list"
  regs :: "nat \<rightharpoonup> registration"
  timers :: "timer list"
  next_tid :: nat
  trace :: "(nat \<times> event) list"

text \<open>The bus when the module has just been loaded, at clock time \<open>t\<close>.\<close>

definition fresh_bus :: "nat \<Rightarrow> bus" where
  "fresh_bus t = \<lparr>now = t, initialized = False, channels = Map.empty, retired = Map.empty,
     next_obj = 0, sessionStorage = Map.empty, localStorage = Map.empty,
     eventListeners = Map.empty, sets = Map.empty, regs = Map.empty, timers = [],
     next_tid = 1, trace = []\<rparr>"

subsection \<open>Console, timers, storage\<close>

definition say :: "event \<Rightarrow> bus \<Rightarrow> bus" where
  "say e s = s\<lparr>trace := trace s @ [(now s, e)]\<rparr>"

text \<open>
  \<^verbatim>\<open>try { f(...) } catch (error) { console.error(...) }\<close>: the call is recorded, and
  the error message when the callback throws.
\<close>

definition try_call :: "string \<Rightarrow> event \<Rightarrow> outcome \<Rightarrow> bus \<Rightarrow> bus" where
  "try_call nm e out s =
     (case out of Returned \<Rightarrow> say e s | Threw \<Rightarrow> say (ConsoleError nm) (say e s))"

text \<open>JS truthiness of an optional number: missing and \<open>0\<close> are falsy.\<close>

definition truthy :: "nat option \<Rightarrow> bool" where
  "truthy x = (case x of None \<Rightarrow> False | Some n \<Rightarrow> n \<noteq> 0)"

text \<open>
  The browser keeps the delay of a timer as a signed 32-bit integer (the Web IDL type
  \<^verbatim>\<open>long\<close>): the number passed is reduced modulo \<open>2\<^sup>3\<^sup>2\<close>, and a result from
  \<open>2\<^sup>3\<^sup>1 = 2147483648\<close> on reads as a negative number, which counts as \<open>0\<close>. So a
  delay of 25 days or more does not wait that long; one of \<open>2\<^sup>3\<^sup>1\<close> ms runs at once.
\<close>

definition timer_delay :: "nat \<Rightarrow> nat" where
  "timer_delay d = (let w = d mod 4294967296 in if w < 2147483648 then w else 0)"

definition setTimeout :: "timer_action \<Rightarrow> nat \<Rightarrow> bus \<Rightarrow> nat \<times> bus" where
  "setTimeout a d s =
     (next_tid s,
      s\<lparr>timers := timers s @ [\<lparr>tid = next_tid s, due = now s + timer_delay d, action = a\<rparr>],
        next_tid := Suc (next_tid s)\<rparr>)"

definition clearTimeout :: "nat \<Rightarrow> bus \<Rightarrow> bus" where
  "clearTimeout i s = s\<lparr>timers := filter (\<lambda>t. tid t \<noteq> i) (timers s)\<rparr>"

text \<open>\<^verbatim>\<open>if (id) clearTimeout(id)\<close>\<close>

definition clear_if_set :: "nat option \<Rightarrow> bus \<Rightarrow> bus" where
  "clear_if_set x s = (case x of None \<Rightarrow> s | Some i \<Rightarrow> if i \<noteq> 0 then clearTimeout i s else s)"

text \<open>
  The name of the store in the messages of the storage helpers
  (\<^verbatim>\<open>`Error reading from ${storage}Storage:`\<close>).
\<close>

definition store_name :: "storage_mode \<Rightarrow> string" where
  "store_name mode = (case mode of Memory \<Rightarrow> ''memoryStorage'' | Session \<Rightarrow> ''sessionStorage''
                      | Local \<Rightarrow> ''localStorage'')"

text \<open>
  \<^verbatim>\<open>getFromStorage\<close> returns the value read and, in its \<^verbatim>\<open>catch\<close> branch, logs:
  \<^verbatim>\<open>getItem\<close> gives \<^verbatim>\<open>null\<close> for a missing key, and \<^verbatim>\<open>JSON.parse\<close> throws on
  the text \<^verbatim>\<open>undefined\<close>.
\<close>

definition getFromStorage :: "string \<Rightarrow> storage_mode \<Rightarrow> bus \<Rightarrow> jsval \<times> bus" where
  "getFromStorage key mode s =
     (if mode = Memory then (Undefined, s)
      else (case (if mode = Session then sessionStorage s else localStorage s) key of
              None \<Rightarrow> (Undefined, s)
            | Some v \<Rightarrow> if v = Undefined then (Undefined, say (ConsoleError (store_name mode)) s)
                       else (v, s)))"

definition saveToStorage :: "string \<Rightarrow> jsval \<Rightarrow> storage_mode \<Rightarrow> bus \<Rightarrow> bus" where
  "saveToStorage key v mode s =
     (if mode = Memory then s
      else if mode = Session then s\<lparr>sessionStorage := (sessionStorage s)(key \<mapsto> v)\<rparr>
      else s\<lparr>localStorage := (localStorage s)(key \<mapsto> v)\<rparr>)"

definition removeFromStorage :: "string \<Rightarrow> storage_mode \<Rightarrow> bus \<Rightarrow> bus" where
  "removeFromStorage key mode s =
     (if mode = Memory then s
      else if mode = Session then s\<lparr>sessionStorage := (sessionStorage s)(key := None)\<rparr>
      else s\<lparr>localStorage := (localStorage s)(key := None)\<rparr>)"

subsection \<open>Channels\<close>

text \<open>
  \<^verbatim>\<open>init\<close> also registers a \<^verbatim>\<open>beforeunload\<close> handler on the window; the
  page's unloading is outside the operations modelled here.
\<close>

definition init :: "bus \<Rightarrow> bus" where
  "init s = (if initialized s then s else s\<lparr>initialized := True\<rparr>)"

text \<open>
  \<^verbatim>\<open>channel\<close> returns the channel's signal in both branches; the model returns the
  bus, where \<open>ch_signal\<close> is the signal's value.
\<close>

definition channel :: "string \<Rightarrow> config option \<Rightarrow> bus \<Rightarrow> bus" where
  "channel channelName cfg s0 =
     (let si = init s0 in
      case channels si channelName of
        Some ch \<Rightarrow> si
      | None \<Rightarrow>
         (let c = (case cfg of None \<Rightarrow> no_config | Some c \<Rightarrow> c);
              mode = (case storage c of None \<Rightarrow> Memory | Some m \<Rightarrow> m);
              key = (case storageKey c of None \<Rightarrow> ''lithium:'' @ channelName | Some k \<Rightarrow> k);
              (storedValue, s) = getFromStorage key mode si;
              v = (if storedValue \<noteq> Undefined then storedValue else initialValue c);
              isInit = (v \<noteq> Undefined \<and> v \<noteq> Null);
              ch = \<lparr>ch_id = next_obj s, ch_signal = v, ch_storage = mode, ch_storageKey = key,
                     ch_subscribers = [], ch_ttl = ttl c, ch_autoCleanup = autoCleanup c,
                     ch_createdAt = now s, ch_config = cfg, ch_isInitialized = isInit,
                     ch_timeoutId = None, ch_onChangeDebounceTimer = None,
                     ch_onChangeLastCall = None\<rparr>;
              s1 = s\<lparr>channels := (channels s)(channelName \<mapsto> ch), next_obj := Suc (next_obj s)\<rparr>;
              s2 = (case ttl c of
                      None \<Rightarrow> s1
                    | Some d \<Rightarrow>
                        if d \<noteq> 0
                        then (let (i, s') = setTimeout (TtlClear channelName) d s1
                              in s'\<lparr>channels := (channels s')(channelName \<mapsto> ch\<lparr>ch_timeoutId := Some i\<rparr>)\<rparr>)
                        else s1)
          in (case onInit c of
                None \<Rightarrow> s2
              | Some h \<Rightarrow>
                  if isInit then try_call channelName (HookOnInit channelName v) (h v) s2 else s2)))"

text \<open>
  \<^verbatim>\<open>executeOnChange(channelName, channel, newValue, oldValue)\<close>. The channel object
  is passed in and returned with the fields the call assigns.
\<close>

definition executeOnChange ::
  "string \<Rightarrow> channel_rec \<Rightarrow> jsval \<Rightarrow> jsval \<Rightarrow> bus \<Rightarrow> channel_rec \<times> bus" where
  "executeOnChange channelName ch newValue oldValue s =
     (case ch_config ch of
        None \<Rightarrow> (ch, s)
      | Some c \<Rightarrow>
         (case onChange c of
            None \<Rightarrow> (ch, s)
          | Some f \<Rightarrow>
              if truthy (debounce c)
              then (let s1 = clear_if_set (ch_onChangeDebounceTimer ch) s;
                        (i, s2) = setTimeout (OnChangeFire channelName f newValue oldValue)
                                    (case debounce c of None \<Rightarrow> 0 | Some d \<Rightarrow> d) s1
                    in (ch\<lparr>ch_onChangeDebounceTimer := Some i\<rparr>, s2))
              else if truthy (throttle c)
              then (let lastCall = (case ch_onChangeLastCall ch of None \<Rightarrow> 0 | Some t \<Rightarrow> t)
                    in if int (now s) - int lastCall \<ge> int (case throttle c of None \<Rightarrow> 0 | Some t \<Rightarrow> t)
                       then (ch\<lparr>ch_onChangeLastCall := Some (now s)\<rparr>,
                             try_call channelName (HookOnChange channelName newValue oldValue)
                               (f newValue oldValue) s)
                       else (ch, s))
              else (ch, try_call channelName (HookOnChange channelName newValue oldValue)
                          (f newValue oldValue) s)))"

text \<open>The \<^verbatim>\<open>forEach\<close> over the subscribers at the end of \<^verbatim>\<open>publish\<close>.\<close>

fun notify :: "string \<Rightarrow> jsval \<Rightarrow> callback list \<Rightarrow> bus \<Rightarrow> bus" where
  "notify channelName v [] s = s"
| "notify channelName v (cb # cbs) s =
     notify channelName v cbs
       (try_call channelName (SubscriberCall channelName (cb_id cb) v) (cb_run cb v) s)"

definition publish :: "string \<Rightarrow> jsval \<Rightarrow> bus \<Rightarrow> bus" where
  "publish channelName v s =
     (case channels s channelName of
        None \<Rightarrow> channel channelName (Some (no_config\<lparr>initialValue := v\<rparr>)) s
      | Some ch \<Rightarrow>
         (let oldValue = ch_signal ch;
              cfg = ch_config ch;
              isValid = (case Option.bind cfg validate of None \<Rightarrow> True | Some f \<Rightarrow> f v)
          in if \<not> isValid then say (ConsoleWarn channelName v) s
             else
              (let transformedValue = (case Option.bind cfg transform of None \<Rightarrow> v | Some f \<Rightarrow> f v);
                   ch1 = ch\<lparr>ch_signal := transformedValue\<rparr>;
                   s1 = (if ch_storage ch \<noteq> Memory
                         then saveToStorage (ch_storageKey ch) transformedValue (ch_storage ch) s
                         else say ConsoleLog s);
                   fires = (\<not> ch_isInitialized ch \<and> transformedValue \<noteq> Undefined
                              \<and> transformedValue \<noteq> Null);
                   ch2 = (if fires then ch1\<lparr>ch_isInitialized := True\<rparr> else ch1);
                   s2 = (if fires
                         then (case Option.bind cfg onInit of
                                 None \<Rightarrow> s1
                               | Some h \<Rightarrow> try_call channelName (HookOnInit channelName transformedValue)
                                             (h transformedValue) s1)
                         else s1);
                   (ch3, s3) = executeOnChange channelName ch2 transformedValue oldValue s2;
                   s4 = notify channelName transformedValue (ch_subscribers ch3) s3
               in s4\<lparr>channels := (channels s4)(channelName \<mapsto> ch3)\<rparr>)))"

definition getValue :: "string \<Rightarrow> bus \<Rightarrow> jsval" where
  "getValue channelName s =
     (case channels s channelName of None \<Rightarrow> Undefined | Some ch \<Rightarrow> ch_signal ch)"

definition clear :: "string \<Rightarrow> bus \<Rightarrow> bus" where
  "clear channelName s =
     (case channels s channelName of
        None \<Rightarrow> s
      | Some ch \<Rightarrow>
         (let s1 = (case Option.bind (ch_config ch) onClear of
                      None \<Rightarrow> s
                    | Some out \<Rightarrow> try_call channelName (HookOnClear channelName) out s);
              s2 = clear_if_set (ch_timeoutId ch) s1;
              s3 = clear_if_set (ch_onChangeDebounceTimer ch) s2;
              s4 = (if ch_storage ch \<noteq> Memory
                    then removeFromStorage (ch_storageKey ch) (ch_storage ch) s3
                    else s3)
          in s4\<lparr>channels := (channels s4)(channelName := None),
                retired := (retired s4)(ch_id ch \<mapsto> ch\<lparr>ch_subscribers := []\<rparr>)\<rparr>))"

text \<open>\<^verbatim>\<open>Set.add\<close> and \<^verbatim>\<open>Set.delete\<close> on a set of function objects.\<close>

definition set_add :: "callback \<Rightarrow> callback list \<Rightarrow> callback list" where
  "set_add cb cbs = (if cb_id cb \<in> cb_id ` set cbs then cbs else cbs @ [cb])"

definition set_delete :: "callback \<Rightarrow> callback list \<Rightarrow> callback list" where
  "set_delete cb cbs = filter (\<lambda>c. cb_id c \<noteq> cb_id cb) cbs"

text \<open>
  The function that \<^verbatim>\<open>subscribe\<close> returns closes over the channel object, the
  channel name and the callback.
\<close>

record handle =
  h_object :: nat
  h_channelName :: string
  h_callback :: callback

text \<open>
  \<open>None\<close> stands for the \<^verbatim>\<open>TypeError\<close> of \<^verbatim>\<open>channel.subscribers\<close> on a
  missing channel, which \<open>subscribe_returns\<close> below excludes.
\<close>

definition subscribe :: "string \<Rightarrow> callback \<Rightarrow> bus \<Rightarrow> (handle \<times> bus) option" where
  "subscribe channelName cb s0 =
     (let s = (case channels s0 channelName of
                 None \<Rightarrow> channel channelName None s0
               | Some _ \<Rightarrow> s0)
      in case channels s channelName of
           None \<Rightarrow> None
         | Some ch \<Rightarrow>
             Some (\<lparr>h_object = ch_id ch, h_channelName = channelName, h_callback = cb\<rparr>,
                   s\<lparr>channels := (channels s)(channelName \<mapsto>
                        ch\<lparr>ch_subscribers := set_add cb (ch_subscribers ch)\<rparr>)\<rparr>))"

text \<open>
  Calling the returned function. The captured object is the registered channel of that
  name when the identities agree, and a retired object otherwise.
\<close>

definition unsubscribe :: "handle \<Rightarrow> bus \<Rightarrow> bus" where
  "unsubscribe h s =
     (let nm = h_channelName h;
          live = (case channels s nm of
                    None \<Rightarrow> None
                  | Some ch \<Rightarrow> if ch_id ch = h_object h then Some ch else None)
      in case live of
           Some ch \<Rightarrow>
             (let ch' = ch\<lparr>ch_subscribers := set_delete (h_callback h) (ch_subscribers ch)\<rparr>;
                  s1 = s\<lparr>channels := (channels s)(nm \<mapsto> ch')\<rparr>
              in if ch_autoCleanup ch' \<and> ch_subscribers ch' = [] then clear nm s1 else s1)
         | None \<Rightarrow>
             (case retired s (h_object h) of
                None \<Rightarrow> s
              | Some ch \<Rightarrow>
                  (let ch' = ch\<lparr>ch_subscribers := set_delete (h_callback h) (ch_subscribers ch)\<rparr>;
                       s1 = s\<lparr>retired := (retired s)(h_object h \<mapsto> ch')\<rparr>
                   in if ch_autoCleanup ch' \<and> ch_subscribers ch' = [] then clear nm s1 else s1)))"

subsection \<open>Instant events\<close>

definition set_at :: "bus \<Rightarrow> nat \<Rightarrow> nat list" where
  "set_at s a = (case sets s a of None \<Rightarrow> [] | Some ws \<Rightarrow> ws)"

definition is_once :: "options option \<Rightarrow> bool" where
  "is_once opts = (case opts of None \<Rightarrow> False | Some x \<Rightarrow> opt_once x)"

text \<open>The closure \<^verbatim>\<open>unlisten\<close> of the registration with wrapper identity \<open>w\<close>.\<close>

definition unlisten :: "nat \<Rightarrow> bus \<Rightarrow> bus" where
  "unlisten w s =
     (case regs s w of
        None \<Rightarrow> s
      | Some r \<Rightarrow>
         (let s1 = clear_if_set (debounceTimer r) s;
              ws = filter (\<lambda>x. x \<noteq> w) (set_at s1 (reg_listeners r));
              s2 = s1\<lparr>sets := (sets s1)(reg_listeners r \<mapsto> ws)\<rparr>
          in if ws = []
             then s2\<lparr>eventListeners := (eventListeners s2)(reg_eventName r := None)\<rparr>
             else s2))"

text \<open>
  The closure \<^verbatim>\<open>executeListener\<close>. When the listener throws, the rest of the
  \<^verbatim>\<open>try\<close> block is skipped.
\<close>

definition executeListener :: "nat \<Rightarrow> jsval \<Rightarrow> bus \<Rightarrow> bus" where
  "executeListener w transformedData s =
     (case regs s w of
        None \<Rightarrow> s
      | Some r \<Rightarrow>
         (let s1 = say (ListenerCall (reg_eventName r) w (cb_id (reg_listener r)) transformedData) s
          in case cb_run (reg_listener r) transformedData of
               Threw \<Rightarrow> say (ConsoleError (reg_eventName r)) s1
             | Returned \<Rightarrow>
                 (let s2 = s1\<lparr>regs := (regs s1)(w \<mapsto> r\<lparr>hasExecuted := True\<rparr>)\<rparr>
                  in if is_once (reg_options r) then unlisten w s2 else s2)))"

definition wrappedListener :: "nat \<Rightarrow> jsval \<Rightarrow> bus \<Rightarrow> bus" where
  "wrappedListener w data s =
     (case regs s w of
        None \<Rightarrow> s
      | Some r \<Rightarrow>
         (let opts = reg_options r in
          if is_once opts \<and> hasExecuted r then s
          else if (case Option.bind opts opt_validate of None \<Rightarrow> False | Some f \<Rightarrow> \<not> f data) then s
          else
           (let transformedData = (case Option.bind opts opt_transform of None \<Rightarrow> data | Some f \<Rightarrow> f data)
            in if truthy (Option.bind opts opt_debounce)
               then (let s1 = clear_if_set (debounceTimer r) s;
                         (i, s2) = setTimeout (ListenerFire w transformedData)
                                     (case Option.bind opts opt_debounce of None \<Rightarrow> 0 | Some d \<Rightarrow> d) s1
                     in s2\<lparr>regs := (regs s2)(w \<mapsto> r\<lparr>debounceTimer := Some i\<rparr>)\<rparr>)
               else if truthy (Option.bind opts opt_throttle)
               then (if int (now s) - int (lastCallTime r)
                          \<ge> int (case Option.bind opts opt_throttle of None \<Rightarrow> 0 | Some t \<Rightarrow> t)
                     then executeListener w transformedData
                            (s\<lparr>regs := (regs s)(w \<mapsto> r\<lparr>lastCallTime := now s\<rparr>)\<rparr>)
                     else s)
               else executeListener w transformedData s)))"

text \<open>
  \<^verbatim>\<open>on\<close> returns \<^verbatim>\<open>unlisten\<close>; the model returns the wrapper's identity, to
  be passed to \<open>unlisten\<close>.
\<close>

definition on :: "string \<Rightarrow> callback \<Rightarrow> options option \<Rightarrow> bus \<Rightarrow> nat \<times> bus" where
  "on eventName listener opts s0 =
     (let (a, s) = (case eventListeners s0 eventName of
                      Some a \<Rightarrow> (a, s0)
                    | None \<Rightarrow> (next_obj s0,
                               s0\<lparr>eventListeners := (eventListeners s0)(eventName \<mapsto> next_obj s0),
                                  sets := (sets s0)(next_obj s0 \<mapsto> []),
                                  next_obj := Suc (next_obj s0)\<rparr>));
          w = next_obj s;
          r = \<lparr>reg_eventName = eventName, reg_listener = listener, reg_options = opts,
                 reg_listeners = a, debounceTimer = None, lastCallTime = 0, hasExecuted = False\<rparr>
      in (w, s\<lparr>regs := (regs s)(w \<mapsto> r), sets := (sets s)(a \<mapsto> set_at s a @ [w]),
               next_obj := Suc w\<rparr>))"

definition once :: "string \<Rightarrow> callback \<Rightarrow> bus \<Rightarrow> nat \<times> bus" where
  "once eventName listener s =
     on eventName listener
       (Some \<lparr>opt_validate = None, opt_transform = None, opt_debounce = None,
              opt_throttle = None, opt_once = True\<rparr>) s"

definition off :: "string \<Rightarrow> bus \<Rightarrow> bus" where
  "off eventName s = s\<lparr>eventListeners := (eventListeners s)(eventName := None)\<rparr>"

text \<open>
  \<^verbatim>\<open>listeners.forEach\<close> in \<^verbatim>\<open>emit\<close>: a wrapper deleted from the set before
  its turn is not visited.
\<close>

fun emit_each :: "nat \<Rightarrow> jsval \<Rightarrow> nat list \<Rightarrow> bus \<Rightarrow> bus" where
  "emit_each a data [] s = s"
| "emit_each a data (w # ws) s =
     emit_each a data ws (if w \<in> set (set_at s a) then wrappedListener w data s else s)"

definition emit :: "string \<Rightarrow> jsval \<Rightarrow> bus \<Rightarrow> bus" where
  "emit eventName data s =
     (case eventListeners s eventName of
        None \<Rightarrow> s
      | Some a \<Rightarrow> if set_at s a = [] then s else emit_each a data (set_at s a) s)"

subsection \<open>The passing of time\<close>

text \<open>The callback of a timer, as passed to \<^verbatim>\<open>setTimeout\<close>.\<close>

definition fire_timer :: "timer \<Rightarrow> bus \<Rightarrow> bus" where
  "fire_timer t s =
     (case action t of
        TtlClear channelName \<Rightarrow> clear channelName s
      | OnChangeFire channelName f newValue oldValue \<Rightarrow>
          try_call channelName (HookOnChange channelName newValue oldValue) (f newValue oldValue) s
      | ListenerFire w transformedData \<Rightarrow> executeListener w transformedData s)"

text \<open>
  The next timer to run up to time \<open>T\<close>: the earliest due, and among those due together
  the first set.
\<close>

fun earliest :: "timer list \<Rightarrow> timer option" where
  "earliest [] = None"
| "earliest (t # ts) =
     (case earliest ts of
        None \<Rightarrow> Some t
      | Some u \<Rightarrow> if due t \<le> due u then Some t else Some u)"

definition next_due :: "nat \<Rightarrow> timer list \<Rightarrow> timer option" where
  "next_due T ts = earliest (filter (\<lambda>t. due t \<le> T) ts)"

definition begin_timer :: "timer \<Rightarrow> bus \<Rightarrow> bus" where
  "begin_timer t s = s\<lparr>now := max (now s) (due t), timers := filter (\<lambda>u. tid u \<noteq> tid t) (timers s)\<rparr>"

text \<open>
  The event loop up to clock time \<open>T\<close>: timers due by then run in order, each at its
  due time (or at once when it is overdue); then the clock reads \<open>T\<close>.
\<close>

function run_until :: "nat \<Rightarrow> bus \<Rightarrow> bus" where
  "run_until T s =
     (case next_due T (timers s) of
        None \<Rightarrow> s\<lparr>now := max (now s) T\<rparr>
      | Some t \<Rightarrow> run_until T (fire_timer t (begin_timer t s)))"
  by pat_completeness auto
termination
proof (relation "measure (\<lambda>(T, s). length (timers s))")
  show "wf (measure (\<lambda>(T, s). length (timers s)))"
    by simp
next
  fix T :: nat and s :: bus and t :: timer
  assume nd: "next_due T (timers s) = Some t"
  have mem: "earliest ts = Some u \<Longrightarrow> u \<in> set ts" for ts u
    by (induction ts arbitrary: u) (auto split: option.splits if_splits)
  have "t \<in> set (filter (\<lambda>t. due t \<le> T) (timers s))"
    using nd mem unfolding next_due_def by blast
  then have "t \<in> set (timers s)"
    by simp
  then have "length (filter (\<lambda>u. tid u \<noteq> tid t) (timers s)) < length (timers s)"
    by (simp add: length_filter_less)
  then have start: "length (timers (begin_timer t s)) < length (timers s)"
    by (simp add: begin_timer_def)
  have cis: "length (timers (clear_if_set x s')) \<le> length (timers s')" for x s'
    by (simp add: clear_if_set_def clearTimeout_def split: option.splits)
  have tc: "timers (try_call nm e out s') = timers s'" for nm e out s'
    by (simp add: try_call_def say_def split: outcome.splits)
  have rs: "timers (removeFromStorage k m s') = timers s'" for k m s'
    by (simp add: removeFromStorage_def)
  have cl: "length (timers (clear nm s')) \<le> length (timers s')" for nm s'
  proof (cases "channels s' nm")
    case None
    then show ?thesis by (simp add: clear_def)
  next
    case (Some ch)
    let ?s1 = "case Option.bind (ch_config ch) onClear of
                 None \<Rightarrow> s'
               | Some out \<Rightarrow> try_call nm (HookOnClear nm) out s'"
    have "timers ?s1 = timers s'"
      by (simp add: tc split: option.splits)
    moreover have "length (timers (clear_if_set (ch_onChangeDebounceTimer ch)
                      (clear_if_set (ch_timeoutId ch) ?s1))) \<le> length (timers ?s1)"
      using cis order_trans by blast
    ultimately show ?thesis
      using Some by (simp add: clear_def Let_def rs)
  qed
  have ul: "length (timers (unlisten w s')) \<le> length (timers s')" for w s'
    using cis [of _ s'] by (simp add: unlisten_def Let_def split: option.splits)
  have el: "length (timers (executeListener w d s')) \<le> length (timers s')" for w d s'
  proof (cases "regs s' w")
    case None
    then show ?thesis by (simp add: executeListener_def)
  next
    case (Some r)
    have "length (timers (unlisten w (say e s'\<lparr>regs := m\<rparr>))) \<le> length (timers s')" for e m
      using ul [of w "say e s'\<lparr>regs := m\<rparr>"] by (simp add: say_def)
    then show ?thesis
      using Some by (simp add: executeListener_def Let_def say_def split: outcome.splits)
  qed
  have "length (timers (fire_timer t (begin_timer t s))) \<le> length (timers (begin_timer t s))"
    by (cases "action t") (simp_all add: fire_timer_def cl tc el)
  with start show "((T, fire_timer t (begin_timer t s)), (T, s)) \<in> measure (\<lambda>(T, s). length (timers s))"
    by simp
qed

text \<open>Letting \<open>d\<close> milliseconds pass.\<close>

definition advance :: "nat \<Rightarrow> bus \<Rightarrow> bus" where
  "advance d s = run_until (now s + d) s"

declare run_until.simps [simp del]

subsection \<open>Reading the trace\<close>

text \<open>
  What a guarded call, and the loop over the subscribers, append to the trace at clock
  time \<open>t\<close>.
\<close>

definition call_events :: "string \<Rightarrow> event \<Rightarrow> outcome \<Rightarrow> nat \<Rightarrow> (nat \<times> event) list" where
  "call_events nm e out t = (case out of Returned \<Rightarrow> [(t, e)] | Threw \<Rightarrow> [(t, e), (t, ConsoleError nm)])"

definition notify_events :: "string \<Rightarrow> jsval \<Rightarrow> callback list \<Rightarrow> nat \<Rightarrow> (nat \<times> event) list" where
  "notify_events n v cbs t = concat (map (\<lambda>cb. call_events n (SubscriberCall n (cb_id cb) v) (cb_run cb v) t) cbs)"

text \<open>
  The calls of the subscribers of a channel (callback identity and argument), and the
  arguments on which the wrapper \<open>w\<close> called its listener.
\<close>

fun subscriber_of :: "string \<Rightarrow> nat \<times> event \<Rightarrow> (nat \<times> jsval) list" where
  "subscriber_of n (t, SubscriberCall m k v) = (if m = n then [(k, v)] else [])"
| "subscriber_of n (t, e) = []"

definition subscriber_calls :: "string \<Rightarrow> (nat \<times> event) list \<Rightarrow> (nat \<times> jsval) list" where
  "subscriber_calls n tr = concat (map (subscriber_of n) tr)"

fun listener_of :: "nat \<Rightarrow> nat \<times> event \<Rightarrow> jsval list" where
  "listener_of w (t, ListenerCall e w' k v) = (if w' = w then [v] else [])"
| "listener_of w (t, ev) = []"

definition listener_calls :: "nat \<Rightarrow> (nat \<times> event) list \<Rightarrow> jsval list" where
  "listener_calls w tr = concat (map (listener_of w) tr)"

text \<open>The calls of \<^verbatim>\<open>onInit\<close> of a channel.\<close>

fun onInit_of :: "string \<Rightarrow> nat \<times> event \<Rightarrow> jsval list" where
  "onInit_of n (t, HookOnInit m v) = (if m = n then [v] else [])"
| "onInit_of n (t, e) = []"

definition onInit_calls :: "string \<Rightarrow> (nat \<times> event) list \<Rightarrow> jsval list" where
  "onInit_calls n tr = concat (map (onInit_of n) tr)"

text \<open>The calls of \<^verbatim>\<open>onChange\<close> of a channel: the clock time, the new and the old value.\<close>

fun onChange_of :: "string \<Rightarrow> nat \<times> event \<Rightarrow> (nat \<times> jsval \<times> jsval) list" where
  "onChange_of n (t, HookOnChange m a b) = (if m = n then [(t, a, b)] else [])"
| "onChange_of n (t, e) = []"

definition onChange_calls :: "string \<Rightarrow> (nat \<times> event) list \<Rightarrow> (nat \<times> jsval \<times> jsval) list" where
  "onChange_calls n tr = concat (map (onChange_of n) tr)"

subsection \<open>Scenarios\<close>


definition accepted :: "config \<Rightarrow> jsval \<Rightarrow> bool" where
  "accepted c v = (case validate c of None \<Rightarrow> True | Some f \<Rightarrow> f v)"

definition transformed :: "config \<Rightarrow> jsval \<Rightarrow> jsval" where
  "transformed c v = (case transform c of None \<Rightarrow> v | Some f \<Rightarrow> f v)"

text \<open>A run of publishes to one channel, each after a wait of \<open>g\<close> milliseconds.\<close>

fun publish_after :: "string \<Rightarrow> (nat \<times> jsval) list \<Rightarrow> bus \<Rightarrow> bus" where
  "publish_after n [] s = s"
| "publish_after n ((g, v) # xs) s = publish_after n xs (publish n v (advance g s))"




text \<open>
  The arguments of the pending debounced \<^verbatim>\<open>onChange\<close> call after a run of accepted
  publishes, from those pending before it.
\<close>

fun final_pair :: "config \<Rightarrow> jsval \<times> jsval \<Rightarrow> (nat \<times> jsval) list \<Rightarrow> jsval \<times> jsval" where
  "final_pair c (a, b) [] = (a, b)"
| "final_pair c (a, b) ((g, w) # xs) = final_pair c (transformed c w, a) xs"

text \<open>A run of emits, each after a wait of \<open>g\<close> milliseconds.\<close>

fun emit_after :: "(nat \<times> string \<times> jsval) list \<Rightarrow> bus \<Rightarrow> bus" where
  "emit_after [] s = s"
| "emit_after ((g, n, d) # xs) s = emit_after xs (emit n d (advance g s))"

text \<open>
  The wrapper \<open>w\<close> of a listener \<open>l\<close> registered with options \<open>opts\<close> has called it at
  most \<open>b\<close> times, counting one call still to come when \<^verbatim>\<open>hasExecuted\<close> is false, and
  no timer that would call it is pending.
\<close>

definition once_budget :: "nat \<Rightarrow> callback \<Rightarrow> options option \<Rightarrow> nat \<Rightarrow> bus \<Rightarrow> bool" where
  "once_budget w l opts b s \<longleftrightarrow>
     (\<exists>r. regs s w = Some r \<and> reg_listener r = l \<and> reg_options r = opts
        \<and> length (listener_calls w (trace s)) + (if hasExecuted r then 0 else 1) \<le> b)
   \<and> (\<forall>t\<in>set (timers s). \<forall>d. action t \<noteq> ListenerFire w d)"

subsection \<open>Timer identities in the states the bus reaches\<close>

text \<open>
  \<^verbatim>\<open>setTimeout\<close> never hands out an identity twice, and the bus stores each identity in
  the object it set the timer for. \<open>well_formed\<close> collects what follows for a state: pending timers
  have distinct, positive identities below \<open>next_tid\<close>; a pending TTL or debounce timer of
  a channel is the one its registered channel object holds (\<open>owned\<close>); and an object that
  holds the identity of a pending timer is the object the timer was set for
  (\<open>exclusive\<close>). The lemma \<open>reachable_wf\<close> below shows that every state the bus
  reaches from its initial state, by calls of its interface and by waiting, is well-formed.
\<close>

definition id_below :: "nat \<Rightarrow> nat option \<Rightarrow> bool" where
  "id_below k x = (case x of None \<Rightarrow> True | Some i \<Rightarrow> i < k)"

definition ids_fresh :: "bus \<Rightarrow> bool" where
  "ids_fresh s \<longleftrightarrow>
     0 < next_tid s
   \<and> distinct (map tid (timers s))
   \<and> (\<forall>t\<in>set (timers s). 0 < tid t \<and> tid t < next_tid s)
   \<and> (\<forall>m ch. channels s m = Some ch \<longrightarrow>
         id_below (next_tid s) (ch_timeoutId ch) \<and> id_below (next_tid s) (ch_onChangeDebounceTimer ch))
   \<and> (\<forall>w r. regs s w = Some r \<longrightarrow> id_below (next_tid s) (debounceTimer r))"

definition owned :: "bus \<Rightarrow> timer \<Rightarrow> bool" where
  "owned s t =
     (case action t of
        TtlClear m \<Rightarrow> (\<exists>ch. channels s m = Some ch \<and> ch_timeoutId ch = Some (tid t))
      | OnChangeFire m f a b \<Rightarrow>
          (\<exists>ch c. channels s m = Some ch \<and> ch_onChangeDebounceTimer ch = Some (tid t)
             \<and> ch_config ch = Some c \<and> onChange c \<noteq> None \<and> truthy (debounce c))
      | ListenerFire w d \<Rightarrow> True)"

definition exclusive :: "bus \<Rightarrow> timer \<Rightarrow> bool" where
  "exclusive s t \<longleftrightarrow>
     (\<forall>m ch. channels s m = Some ch \<longrightarrow>
        (ch_timeoutId ch = Some (tid t) \<longrightarrow> action t = TtlClear m)
      \<and> (ch_onChangeDebounceTimer ch = Some (tid t) \<longrightarrow> (\<exists>f a b. action t = OnChangeFire m f a b)))
   \<and> (\<forall>w r. regs s w = Some r \<longrightarrow> debounceTimer r = Some (tid t) \<longrightarrow> (\<exists>d. action t = ListenerFire w d))"

definition well_formed :: "bus \<Rightarrow> bool" where
  "well_formed s \<longleftrightarrow> ids_fresh s \<and> (\<forall>t\<in>set (timers s). owned s t \<and> exclusive s t)"

text \<open>The timers set for the channel named \<open>m\<close>.\<close>

definition of_channel :: "string \<Rightarrow> timer \<Rightarrow> bool" where
  "of_channel m t = (case action t of TtlClear m' \<Rightarrow> m' = m | OnChangeFire m' f a b \<Rightarrow> m' = m
                     | ListenerFire w d \<Rightarrow> False)"

text \<open>
  The states of the bus: the bus as loaded, with the stores empty or as an earlier page
  left them, and what any call of the interface or any wait makes of a state.
  \<open>subscribe\<close> and \<open>on\<close> return a handle beside the bus.
\<close>

inductive reachable :: "bus \<Rightarrow> bool" where
  fresh: "reachable (fresh_bus t)"
| loaded: "reachable ((fresh_bus t)\<lparr>sessionStorage := ss, localStorage := ls\<rparr>)"
| by_channel: "reachable s \<Longrightarrow> reachable (channel n cfg s)"
| by_publish: "reachable s \<Longrightarrow> reachable (publish n v s)"
| by_subscribe: "reachable s \<Longrightarrow> subscribe n cb s = Some (h, s') \<Longrightarrow> reachable s'"
| by_unsubscribe: "reachable s \<Longrightarrow> reachable (unsubscribe h s)"
| by_clear: "reachable s \<Longrightarrow> reachable (clear n s)"
| by_emit: "reachable s \<Longrightarrow> reachable (emit n d s)"
| by_on: "reachable s \<Longrightarrow> reachable (snd (on n l opts s))"
| by_once: "reachable s \<Longrightarrow> reachable (snd (once n l s))"
| by_off: "reachable s \<Longrightarrow> reachable (off n s)"
| by_unlisten: "reachable s \<Longrightarrow> reachable (unlisten w s)"
| by_advance: "reachable s \<Longrightarrow> reachable (advance g s)"

subsection \<open>Sample callbacks and states\<close>

definition quiet :: "nat \<Rightarrow> callback" where
  "quiet k = Callback k (\<lambda>v. Returned)"

definition faulty :: "nat \<Rightarrow> callback" where
  "faulty k = Callback k (\<lambda>v. Threw)"

definition demo_cfg :: config where
  "demo_cfg = no_config\<lparr>storage := Some Session, ttl := Some 5000, autoCleanup := True,
     validate := Some (\<lambda>v. v \<noteq> JNum 0),
     transform := Some (\<lambda>v. case v of JNum k \<Rightarrow> JNum (k + 1) | _ \<Rightarrow> v),
     onChange := Some (\<lambda>a b. Returned), onInit := Some (\<lambda>v. Returned),
     onClear := Some Returned, debounce := Some 100\<rparr>"

definition demo_channel :: channel_rec where
  "demo_channel = \<lparr>ch_id = 0, ch_signal = Undefined, ch_storage = Session,
     ch_storageKey = ''lithium:cart'', ch_subscribers = [quiet 7], ch_ttl = Some 5000,
     ch_autoCleanup = True, ch_createdAt = 1000, ch_config = Some demo_cfg,
     ch_isInitialized = False, ch_timeoutId = Some 1, ch_onChangeDebounceTimer = None,
     ch_onChangeLastCall = None\<rparr>"

definition demo_handle :: handle where
  "demo_handle = \<lparr>h_object = 0, h_channelName = ''cart'', h_callback = quiet 7\<rparr>"

definition demo_bus :: bus where
  "demo_bus = (fresh_bus 1000)\<lparr>initialized := True, channels := [''cart'' \<mapsto> demo_channel],
     next_obj := 1, timers := [\<lparr>tid = 1, due = 6000, action = TtlClear ''cart''\<rparr>], next_tid := 2\<rparr>"

definition demo_bus2 :: bus where
  "demo_bus2 = publish ''cart'' (JNum 4) demo_bus"

definition demo_channel2 :: channel_rec where
  "demo_channel2 = demo_channel\<lparr>ch_signal := JNum 5, ch_isInitialized := True,
     ch_onChangeDebounceTimer := Some 2\<rparr>"

definition demo_opts :: options where
  "demo_opts = \<lparr>opt_validate = None, opt_transform = None, opt_debounce = Some 50,
     opt_throttle = None, opt_once = False\<rparr>"

definition demo_events :: bus where
  "demo_events = emit ''tick'' (JNum 1) (snd (on ''tick'' (quiet 3) (Some demo_opts) (fresh_bus 1000)))"

definition demo_timer :: timer where
  "demo_timer = \<lparr>tid = 1, due = 1050, action = ListenerFire (Suc 0) (JNum 1)\<rparr>"

definition debounce_cfg :: config where
  "debounce_cfg = no_config\<lparr>onChange := Some (\<lambda>a b. Returned), debounce := Some 100\<rparr>"

definition throttle_cfg :: config where
  "throttle_cfg = no_config\<lparr>onChange := Some (\<lambda>a b. Returned), throttle := Some 100\<rparr>"




section \<open>Basic facts\<close>

lemma say_fields [simp]:
  "trace (say e s) = trace s @ [(now s, e)]"
  "now (say e s) = now s"
  "channels (say e s) = channels s"
  "retired (say e s) = retired s"
  "sessionStorage (say e s) = sessionStorage s"
  "localStorage (say e s) = localStorage s"
  "timers (say e s) = timers s"
  "next_tid (say e s) = next_tid s"
  "next_obj (say e s) = next_obj s"
  "initialized (say e s) = initialized s"
  "eventListeners (say e s) = eventListeners s"
  "sets (say e s) = sets s"
  "regs (say e s) = regs s"
  by (simp_all add: say_def)

lemma try_call_fields [simp]:
  "trace (try_call nm e out s) = trace s @ call_events nm e out (now s)"
  "now (try_call nm e out s) = now s"
  "channels (try_call nm e out s) = channels s"
  "retired (try_call nm e out s) = retired s"
  "sessionStorage (try_call nm e out s) = sessionStorage s"
  "localStorage (try_call nm e out s) = localStorage s"
  "timers (try_call nm e out s) = timers s"
  "next_tid (try_call nm e out s) = next_tid s"
  "next_obj (try_call nm e out s) = next_obj s"
  "initialized (try_call nm e out s) = initialized s"
  "eventListeners (try_call nm e out s) = eventListeners s"
  "sets (try_call nm e out s) = sets s"
  "regs (try_call nm e out s) = regs s"
  by (simp_all add: try_call_def call_events_def split: outcome.splits)

lemma try_call_eq: "try_call nm e out s = s\<lparr>trace := trace s @ call_events nm e out (now s)\<rparr>"
  by (simp add: try_call_def call_events_def say_def split: outcome.splits)

lemma notify_eq: "notify n v cbs s = s\<lparr>trace := trace s @ notify_events n v cbs (now s)\<rparr>"
  by (induction cbs arbitrary: s) (simp_all add: notify_events_def try_call_eq)

lemma subscriber_calls_append [simp]:
  "subscriber_calls n (xs @ ys) = subscriber_calls n xs @ subscriber_calls n ys"
  by (simp add: subscriber_calls_def)

lemma subscriber_calls_simps [simp]:
  "subscriber_calls n [] = []"
  "subscriber_calls n ((t, SubscriberCall m k v) # tr) = (if m = n then [(k, v)] else []) @ subscriber_calls n tr"
  "subscriber_calls n ((t, HookOnInit m v) # tr) = subscriber_calls n tr"
  "subscriber_calls n ((t, HookOnChange m v v') # tr) = subscriber_calls n tr"
  "subscriber_calls n ((t, HookOnClear m) # tr) = subscriber_calls n tr"
  "subscriber_calls n ((t, ListenerCall m w k v) # tr) = subscriber_calls n tr"
  "subscriber_calls n ((t, ConsoleWarn m v) # tr) = subscriber_calls n tr"
  "subscriber_calls n ((t, ConsoleError m) # tr) = subscriber_calls n tr"
  "subscriber_calls n ((t, ConsoleLog) # tr) = subscriber_calls n tr"
  by (simp_all add: subscriber_calls_def)

lemma subscriber_calls_notify_events:
  "subscriber_calls n (notify_events n v cbs t) = map (\<lambda>cb. (cb_id cb, v)) cbs"
  by (induction cbs) (simp_all add: notify_events_def call_events_def split: outcome.splits)

lemma subscriber_calls_call_events [simp]:
  "subscriber_calls n (call_events nm (HookOnInit m v) out t) = []"
  "subscriber_calls n (call_events nm (HookOnChange m v v') out t) = []"
  "subscriber_calls n (call_events nm (HookOnClear m) out t) = []"
  by (simp_all add: call_events_def split: outcome.splits)

lemma setTimeout_fields [simp]:
  "trace (snd (setTimeout a d s)) = trace s"
  "now (snd (setTimeout a d s)) = now s"
  "channels (snd (setTimeout a d s)) = channels s"
  "retired (snd (setTimeout a d s)) = retired s"
  "sessionStorage (snd (setTimeout a d s)) = sessionStorage s"
  "localStorage (snd (setTimeout a d s)) = localStorage s"
  "timers (snd (setTimeout a d s)) = timers s @ [\<lparr>tid = next_tid s, due = now s + timer_delay d, action = a\<rparr>]"
  "next_tid (snd (setTimeout a d s)) = Suc (next_tid s)"
  "next_obj (snd (setTimeout a d s)) = next_obj s"
  "initialized (snd (setTimeout a d s)) = initialized s"
  "eventListeners (snd (setTimeout a d s)) = eventListeners s"
  "sets (snd (setTimeout a d s)) = sets s"
  "regs (snd (setTimeout a d s)) = regs s"
  "fst (setTimeout a d s) = next_tid s"
  by (simp_all add: setTimeout_def)

lemma timer_delay_id [simp]: "d < 2147483648 \<Longrightarrow> timer_delay d = d"
  by (simp add: timer_delay_def)

lemma getFromStorage_fields [simp]:
  "now (snd (getFromStorage k m s)) = now s"
  "channels (snd (getFromStorage k m s)) = channels s"
  "retired (snd (getFromStorage k m s)) = retired s"
  "sessionStorage (snd (getFromStorage k m s)) = sessionStorage s"
  "localStorage (snd (getFromStorage k m s)) = localStorage s"
  "timers (snd (getFromStorage k m s)) = timers s"
  "next_tid (snd (getFromStorage k m s)) = next_tid s"
  "next_obj (snd (getFromStorage k m s)) = next_obj s"
  "initialized (snd (getFromStorage k m s)) = initialized s"
  "eventListeners (snd (getFromStorage k m s)) = eventListeners s"
  "sets (snd (getFromStorage k m s)) = sets s"
  "regs (snd (getFromStorage k m s)) = regs s"
  by (simp_all add: getFromStorage_def split: option.splits)

lemma getFromStorage_trace:
  "trace (snd (getFromStorage k m s)) = trace s
   \<or> trace (snd (getFromStorage k m s)) = trace s @ [(now s, ConsoleError (store_name m))]"
  by (simp add: getFromStorage_def split: option.splits)

lemma clear_if_set_fields [simp]:
  "trace (clear_if_set x s) = trace s"
  "now (clear_if_set x s) = now s"
  "channels (clear_if_set x s) = channels s"
  "retired (clear_if_set x s) = retired s"
  "sessionStorage (clear_if_set x s) = sessionStorage s"
  "localStorage (clear_if_set x s) = localStorage s"
  "next_tid (clear_if_set x s) = next_tid s"
  "next_obj (clear_if_set x s) = next_obj s"
  "initialized (clear_if_set x s) = initialized s"
  "eventListeners (clear_if_set x s) = eventListeners s"
  "sets (clear_if_set x s) = sets s"
  "regs (clear_if_set x s) = regs s"
  by (simp_all add: clear_if_set_def clearTimeout_def split: option.splits)

lemma executeOnChange_frame:
  "sessionStorage (snd (executeOnChange n ch a b s)) = sessionStorage s"
  "localStorage (snd (executeOnChange n ch a b s)) = localStorage s"
  "channels (snd (executeOnChange n ch a b s)) = channels s"
  "now (snd (executeOnChange n ch a b s)) = now s"
  "subscriber_calls m (trace (snd (executeOnChange n ch a b s))) = subscriber_calls m (trace s)"
  "ch_subscribers (fst (executeOnChange n ch a b s)) = ch_subscribers ch"
  "ch_signal (fst (executeOnChange n ch a b s)) = ch_signal ch"
  by (simp_all add: executeOnChange_def Let_def split_beta split: option.splits)

lemma removeFromStorage_fields [simp]:
  "trace (removeFromStorage k m s) = trace s"
  "now (removeFromStorage k m s) = now s"
  "channels (removeFromStorage k m s) = channels s"
  "retired (removeFromStorage k m s) = retired s"
  "timers (removeFromStorage k m s) = timers s"
  "next_tid (removeFromStorage k m s) = next_tid s"
  "next_obj (removeFromStorage k m s) = next_obj s"
  "initialized (removeFromStorage k m s) = initialized s"
  "eventListeners (removeFromStorage k m s) = eventListeners s"
  "sets (removeFromStorage k m s) = sets s"
  "regs (removeFromStorage k m s) = regs s"
  by (simp_all add: removeFromStorage_def)

lemma timers_clear_if_set:
  "timers (clear_if_set x s) = filter (\<lambda>t. tid t = 0 \<or> x \<noteq> Some (tid t)) (timers s)"
proof (cases x)
  case None
  then show ?thesis by (simp add: clear_if_set_def)
next
  case (Some i)
  show ?thesis
  proof (cases "i = 0")
    case True
    have "filter (\<lambda>t. tid t = 0 \<or> 0 < tid t) (timers s) = timers s"
      by (simp add: filter_id_conv) auto
    then show ?thesis
      using Some True by (simp add: clear_if_set_def)
  next
    case False
    then show ?thesis
      using Some by (auto simp: clear_if_set_def clearTimeout_def intro!: filter_cong)
  qed
qed

lemmas bus_defs = on_def once_def off_def emit_def unlisten_def wrappedListener_def executeListener_def
  set_at_def is_once_def say_def fresh_bus_def clear_if_set_def clearTimeout_def setTimeout_def truthy_def
  quiet_def faulty_def listener_calls_def Let_def

lemma demo_bus_reached:
  "subscribe ''cart'' (quiet 7) (channel ''cart'' (Some demo_cfg) (fresh_bus 1000))
     = Some (demo_handle, demo_bus)"
  by (simp add: subscribe_def channel_def init_def fresh_bus_def demo_cfg_def no_config_def
        getFromStorage_def setTimeout_def Let_def set_add_def demo_handle_def demo_bus_def
        demo_channel_def)

lemma demo_bus2_channel: "channels demo_bus2 ''cart'' = Some demo_channel2"
  by (simp add: demo_bus2_def publish_def demo_bus_def demo_channel_def demo_channel2_def demo_cfg_def
        no_config_def fresh_bus_def quiet_def executeOnChange_def Let_def truthy_def setTimeout_def
        clear_if_set_def saveToStorage_def try_call_def say_def notify_eq)

lemma demo_bus2_timers:
  "timers demo_bus2 = [\<lparr>tid = 1, due = 6000, action = TtlClear ''cart''\<rparr>,
      \<lparr>tid = 2, due = 1100, action = OnChangeFire ''cart'' (\<lambda>a b. Returned) (JNum 5) Undefined\<rparr>]"
  by (simp add: demo_bus2_def publish_def demo_bus_def demo_channel_def demo_channel2_def demo_cfg_def
        no_config_def fresh_bus_def quiet_def executeOnChange_def Let_def truthy_def setTimeout_def
        clear_if_set_def saveToStorage_def try_call_def say_def notify_eq)

lemma demo_events_eval:
  "regs demo_events (Suc 0) = Some \<lparr>reg_eventName = ''tick'', reg_listener = quiet 3,
      reg_options = Some demo_opts, reg_listeners = 0, debounceTimer = Some 1, lastCallTime = 0,
      hasExecuted = False\<rparr>"
  "timers demo_events = [demo_timer]"
  "trace demo_events = []"
  "now demo_events = 1000"
  by (simp_all add: demo_events_def demo_opts_def demo_timer_def bus_defs)

section \<open>Timers, publishes and well-formed states\<close>

lemma onInit_calls_append [simp]:
  "onInit_calls n (xs @ ys) = onInit_calls n xs @ onInit_calls n ys"
  by (simp add: onInit_calls_def)

lemma onChange_calls_append [simp]:
  "onChange_calls n (xs @ ys) = onChange_calls n xs @ onChange_calls n ys"
  by (simp add: onChange_calls_def)

lemma onInit_calls_simps [simp]:
  "onInit_calls n [] = []"
  "onInit_calls n ((t, HookOnInit m v) # tr) = (if m = n then [v] else []) @ onInit_calls n tr"
  "onInit_calls n ((t, SubscriberCall m k v) # tr) = onInit_calls n tr"
  "onInit_calls n ((t, HookOnChange m v v') # tr) = onInit_calls n tr"
  "onInit_calls n ((t, HookOnClear m) # tr) = onInit_calls n tr"
  "onInit_calls n ((t, ListenerCall m w k v) # tr) = onInit_calls n tr"
  "onInit_calls n ((t, ConsoleWarn m v) # tr) = onInit_calls n tr"
  "onInit_calls n ((t, ConsoleError m) # tr) = onInit_calls n tr"
  "onInit_calls n ((t, ConsoleLog) # tr) = onInit_calls n tr"
  by (simp_all add: onInit_calls_def)

lemma onChange_calls_simps [simp]:
  "onChange_calls n [] = []"
  "onChange_calls n ((t, HookOnChange m v v') # tr) = (if m = n then [(t, v, v')] else []) @ onChange_calls n tr"
  "onChange_calls n ((t, SubscriberCall m k v) # tr) = onChange_calls n tr"
  "onChange_calls n ((t, HookOnInit m v) # tr) = onChange_calls n tr"
  "onChange_calls n ((t, HookOnClear m) # tr) = onChange_calls n tr"
  "onChange_calls n ((t, ListenerCall m w k v) # tr) = onChange_calls n tr"
  "onChange_calls n ((t, ConsoleWarn m v) # tr) = onChange_calls n tr"
  "onChange_calls n ((t, ConsoleError m) # tr) = onChange_calls n tr"
  "onChange_calls n ((t, ConsoleLog) # tr) = onChange_calls n tr"
  by (simp_all add: onChange_calls_def)

lemma onInit_calls_call_events [simp]:
  "onInit_calls n (call_events nm (HookOnInit m v) out t) = (if m = n then [v] else [])"
  "onInit_calls n (call_events nm (HookOnChange m v v') out t) = []"
  "onInit_calls n (call_events nm (HookOnClear m) out t) = []"
  "onInit_calls n (call_events nm (SubscriberCall m k v) out t) = []"
  "onInit_calls n (call_events nm (ListenerCall m w k v) out t) = []"
  by (simp_all add: call_events_def split: outcome.splits)

lemma onChange_calls_call_events [simp]:
  "onChange_calls n (call_events nm (HookOnChange m v v') out t) = (if m = n then [(t, v, v')] else [])"
  "onChange_calls n (call_events nm (HookOnInit m v) out t) = []"
  "onChange_calls n (call_events nm (HookOnClear m) out t) = []"
  "onChange_calls n (call_events nm (SubscriberCall m k v) out t) = []"
  "onChange_calls n (call_events nm (ListenerCall m w k v) out t) = []"
  by (simp_all add: call_events_def split: outcome.splits)

lemma onInit_calls_notify_events [simp]: "onInit_calls n (notify_events m v cbs t) = []"
  by (induction cbs) (simp_all add: notify_events_def)

lemma onChange_calls_notify_events [simp]: "onChange_calls n (notify_events m v cbs t) = []"
  by (induction cbs) (simp_all add: notify_events_def)

lemma earliest_mem: "earliest ts = Some u \<Longrightarrow> u \<in> set ts"
  by (induction ts arbitrary: u) (auto split: option.splits if_splits)

lemma earliest_None: "earliest ts = None \<longleftrightarrow> ts = []"
  by (cases ts) (auto split: option.splits)

lemma earliest_min: "earliest ts = Some u \<Longrightarrow> x \<in> set ts \<Longrightarrow> due u \<le> due x"
  by (induction ts arbitrary: u) (auto simp: earliest_None split: option.splits if_splits)

lemma next_due_Some:
  assumes "next_due T ts = Some t"
  shows "t \<in> set ts" and "due t \<le> T" and "\<And>u. u \<in> set ts \<Longrightarrow> due u \<le> T \<Longrightarrow> due t \<le> due u"
  using assms earliest_mem [of "filter (\<lambda>t. due t \<le> T) ts" t]
    earliest_min [of "filter (\<lambda>t. due t \<le> T) ts" t]
  by (auto simp: next_due_def)

lemma next_due_None: "next_due T ts = None \<longleftrightarrow> (\<forall>t\<in>set ts. T < due t)"
  by (auto simp: next_due_def earliest_None filter_empty_conv not_le)

lemma trace_unlisten [simp]: "trace (unlisten w s) = trace s"
  by (simp add: unlisten_def Let_def split: option.splits)

lemma now_unlisten [simp]: "now (unlisten w s) = now s"
  by (simp add: unlisten_def Let_def split: option.splits)

lemma channels_unlisten [simp]: "channels (unlisten w s) = channels s"
  by (simp add: unlisten_def Let_def split: option.splits)

lemma timers_unlisten_subset: "set (timers (unlisten w s)) \<subseteq> set (timers s)"
  by (auto simp: unlisten_def Let_def timers_clear_if_set split: option.splits)

lemma executeListener_frame [simp]:
  "now (executeListener w d s) = now s"
  "channels (executeListener w d s) = channels s"
  "onInit_calls n (trace (executeListener w d s)) = onInit_calls n (trace s)"
  "onChange_calls n (trace (executeListener w d s)) = onChange_calls n (trace s)"
  by (simp_all add: executeListener_def Let_def split: option.splits outcome.splits)

lemma timers_executeListener_subset: "set (timers (executeListener w d s)) \<subseteq> set (timers s)"
proof (cases "regs s w")
  case None
  then show ?thesis by (simp add: executeListener_def)
next
  case (Some r)
  have "set (timers (unlisten w (say e s\<lparr>regs := m\<rparr>))) \<subseteq> set (timers s)" for e m
    using timers_unlisten_subset [of w "say e s\<lparr>regs := m\<rparr>"] by (simp add: say_def)
  then show ?thesis
    using Some by (simp add: executeListener_def Let_def split: outcome.splits)
qed

lemma clear_frame [simp]:
  "now (clear m s) = now s"
  "m \<noteq> n \<Longrightarrow> channels (clear m s) n = channels s n"
  "onInit_calls n (trace (clear m s)) = onInit_calls n (trace s)"
  "onChange_calls n (trace (clear m s)) = onChange_calls n (trace s)"
  by (simp_all add: clear_def Let_def split: option.splits)

lemma timers_clear_subset: "set (timers (clear m s)) \<subseteq> set (timers s)"
  by (auto simp: clear_def Let_def timers_clear_if_set split: option.splits)

lemma step_now [simp]: "now (fire_timer t (begin_timer t s)) = max (now s) (due t)"
  by (simp add: fire_timer_def begin_timer_def split: timer_action.splits)

lemma step_timers_subset: "set (timers (fire_timer t (begin_timer t s))) \<subseteq> set (timers s)"
proof -
  have "set (timers (begin_timer t s)) \<subseteq> set (timers s)"
    by (auto simp: begin_timer_def)
  moreover have "set (timers (fire_timer t s')) \<subseteq> set (timers s')" for s'
    using timers_clear_subset timers_executeListener_subset
    by (cases "action t") (simp_all add: fire_timer_def)
  ultimately show ?thesis by blast
qed

lemma step_channels:
  "action t \<noteq> TtlClear n \<Longrightarrow> channels (fire_timer t (begin_timer t s)) n = channels s n"
  by (cases "action t") (simp_all add: fire_timer_def begin_timer_def)

lemma step_onInit [simp]:
  "onInit_calls n (trace (fire_timer t (begin_timer t s))) = onInit_calls n (trace s)"
  by (cases "action t") (simp_all add: fire_timer_def begin_timer_def)

lemma step_onChange:
  "\<forall>f a b. action t \<noteq> OnChangeFire n f a b \<Longrightarrow>
   onChange_calls n (trace (fire_timer t (begin_timer t s))) = onChange_calls n (trace s)"
  by (cases "action t") (auto simp add: fire_timer_def begin_timer_def)

lemma run_until_now [simp]: "now (run_until T s) = max (now s) T"
proof (induction T s rule: run_until.induct)
  case (1 T s)
  show ?case
  proof (cases "next_due T (timers s)")
    case None
    then show ?thesis by (subst run_until.simps) simp
  next
    case (Some t)
    then have "due t \<le> T" by (rule next_due_Some)
    with 1 Some show ?thesis by (subst run_until.simps) simp
  qed
qed

lemma run_until_timers_subset: "set (timers (run_until T s)) \<subseteq> set (timers s)"
proof (induction T s rule: run_until.induct)
  case (1 T s)
  show ?case
  proof (cases "next_due T (timers s)")
    case None
    then show ?thesis by (subst run_until.simps) simp
  next
    case (Some t)
    with 1 step_timers_subset [of t s] show ?thesis by (subst run_until.simps) auto
  qed
qed

lemma run_until_onInit [simp]: "onInit_calls n (trace (run_until T s)) = onInit_calls n (trace s)"
proof (induction T s rule: run_until.induct)
  case (1 T s)
  show ?case
  proof (cases "next_due T (timers s)")
    case None
    then show ?thesis by (subst run_until.simps) simp
  next
    case (Some t)
    with 1 show ?thesis by (subst run_until.simps) simp
  qed
qed

lemma run_until_channels:
  "\<forall>t\<in>set (timers s). action t = TtlClear n \<longrightarrow> T < due t \<Longrightarrow>
   channels (run_until T s) n = channels s n"
proof (induction T s rule: run_until.induct)
  case (1 T s)
  show ?case
  proof (cases "next_due T (timers s)")
    case None
    then show ?thesis by (subst run_until.simps) simp
  next
    case (Some t)
    then have t: "t \<in> set (timers s)" "due t \<le> T"
      by (rule next_due_Some)+
    with 1(2) have a: "action t \<noteq> TtlClear n" by auto
    have "\<forall>u\<in>set (timers (fire_timer t (begin_timer t s))). action u = TtlClear n \<longrightarrow> T < due u"
      using 1(2) step_timers_subset [of t s] by blast
    with 1(1) [OF Some] have "channels (run_until T (fire_timer t (begin_timer t s))) n
        = channels (fire_timer t (begin_timer t s)) n" by blast
    with a Some show ?thesis by (subst run_until.simps) (simp add: step_channels)
  qed
qed

lemma run_until_onChange:
  "\<forall>t\<in>set (timers s). \<forall>f a b. action t \<noteq> OnChangeFire n f a b \<Longrightarrow>
   onChange_calls n (trace (run_until T s)) = onChange_calls n (trace s)"
proof (induction T s rule: run_until.induct)
  case (1 T s)
  show ?case
  proof (cases "next_due T (timers s)")
    case None
    then show ?thesis by (subst run_until.simps) simp
  next
    case (Some t)
    then have t: "t \<in> set (timers s)"
      by (rule next_due_Some)
    with 1(2) have a: "\<forall>f a b. action t \<noteq> OnChangeFire n f a b" by auto
    have "\<forall>u\<in>set (timers (fire_timer t (begin_timer t s))). \<forall>f a b. action u \<noteq> OnChangeFire n f a b"
      using 1(2) step_timers_subset [of t s] by blast
    with 1(1) [OF Some] have "onChange_calls n (trace (run_until T (fire_timer t (begin_timer t s))))
        = onChange_calls n (trace (fire_timer t (begin_timer t s)))" by blast
    with a Some show ?thesis by (subst run_until.simps) (simp add: step_onChange)
  qed
qed


lemma executeOnChange_ttl_timers:
  "t \<in> set (timers (snd (executeOnChange n ch a b s))) \<Longrightarrow> action t = TtlClear m \<Longrightarrow> t \<in> set (timers s)"
  by (auto simp add: executeOnChange_def Let_def split_beta timers_clear_if_set
        split: option.splits if_splits)

lemma saveToStorage_fields [simp]:
  "trace (saveToStorage k v m s) = trace s"
  "now (saveToStorage k v m s) = now s"
  "channels (saveToStorage k v m s) = channels s"
  "retired (saveToStorage k v m s) = retired s"
  "timers (saveToStorage k v m s) = timers s"
  "next_tid (saveToStorage k v m s) = next_tid s"
  "next_obj (saveToStorage k v m s) = next_obj s"
  "initialized (saveToStorage k v m s) = initialized s"
  "eventListeners (saveToStorage k v m s) = eventListeners s"
  "sets (saveToStorage k v m s) = sets s"
  "regs (saveToStorage k v m s) = regs s"
  by (simp_all add: saveToStorage_def)

lemma init_fields [simp]:
  "trace (init s) = trace s"
  "now (init s) = now s"
  "channels (init s) = channels s"
  "retired (init s) = retired s"
  "sessionStorage (init s) = sessionStorage s"
  "localStorage (init s) = localStorage s"
  "timers (init s) = timers s"
  "next_tid (init s) = next_tid s"
  "next_obj (init s) = next_obj s"
  "eventListeners (init s) = eventListeners s"
  "sets (init s) = sets s"
  "regs (init s) = regs s"
  by (simp_all add: init_def)

lemma publish_now [simp]: "now (publish n v s) = now s"
proof (cases "channels s n")
  case None
  then show ?thesis
    by (simp add: publish_def channel_def no_config_def Let_def getFromStorage_def)
next
  case (Some ch)
  then show ?thesis
    by (cases "Option.bind (ch_config ch) onInit")
       (simp_all add: publish_def Let_def split_beta notify_eq executeOnChange_frame)
qed








lemma getFromStorage_value:
  "fst (getFromStorage k m s) =
     (if m = Memory then Undefined
      else case (if m = Session then sessionStorage s else localStorage s) k of
             None \<Rightarrow> Undefined
           | Some v \<Rightarrow> v)"
  by (simp add: getFromStorage_def split: option.splits)

lemma getFromStorage_init [simp]: "fst (getFromStorage k m (init s)) = fst (getFromStorage k m s)"
  by (simp add: getFromStorage_value)

lemma onInit_calls_getFromStorage [simp]:
  "onInit_calls n (trace (snd (getFromStorage k m s))) = onInit_calls n (trace s)"
  using getFromStorage_trace [of k m s] by auto



lemma publish_throttle:
  assumes "channels s n = Some ch" and "ch_config ch = Some c" and "onChange c = Some f"
    and "\<not> truthy (debounce c)" and "throttle c = Some T" and "0 < T" and "accepted c v"
  defines "lastc \<equiv> (case ch_onChangeLastCall ch of None \<Rightarrow> 0 | Some l \<Rightarrow> l)"
  shows "\<exists>ch'. channels (publish n v s) n = Some ch' \<and> ch_config ch' = Some c
      \<and> ch_signal ch' = transformed c v
      \<and> ch_onChangeLastCall ch' = (if lastc + T \<le> now s then Some (now s) else ch_onChangeLastCall ch)"
    and "onChange_calls n (trace (publish n v s)) = onChange_calls n (trace s) @
      (if lastc + T \<le> now s then [(now s, transformed c v, ch_signal ch)] else [])"
    and "timers (publish n v s) = timers s"
proof -
  have le: "(int T \<le> int (now s) - int lastc) = (lastc + T \<le> now s)"
    by linarith
  show "\<exists>ch'. channels (publish n v s) n = Some ch' \<and> ch_config ch' = Some c
      \<and> ch_signal ch' = transformed c v
      \<and> ch_onChangeLastCall ch' = (if lastc + T \<le> now s then Some (now s) else ch_onChangeLastCall ch)"
    using assms(1-7) le
    by (cases "onInit c")
       (simp_all add: publish_def executeOnChange_def accepted_def transformed_def truthy_def
          Let_def split_beta lastc_def)
  show "onChange_calls n (trace (publish n v s)) = onChange_calls n (trace s) @
      (if lastc + T \<le> now s then [(now s, transformed c v, ch_signal ch)] else [])"
    using assms(1-7) le
    by (cases "onInit c")
       (simp_all add: publish_def executeOnChange_def accepted_def transformed_def truthy_def
          Let_def split_beta lastc_def notify_eq saveToStorage_def)
  show "timers (publish n v s) = timers s"
    using assms(1-7) le
    by (cases "onInit c")
       (simp_all add: publish_def executeOnChange_def accepted_def transformed_def truthy_def
          Let_def split_beta lastc_def notify_eq)
qed

lemma wf_fresh_bus: "well_formed (fresh_bus t)"
  by (simp add: well_formed_def ids_fresh_def fresh_bus_def)

lemma wf_loaded_bus: "well_formed ((fresh_bus t)\<lparr>sessionStorage := ss, localStorage := ls\<rparr>)"
  by (simp add: well_formed_def ids_fresh_def fresh_bus_def)

lemma owned_cong: "channels s' = channels s \<Longrightarrow> owned s' t = owned s t"
  by (cases "action t") (simp_all add: owned_def)

lemma exclusive_cong: "channels s' = channels s \<Longrightarrow> regs s' = regs s \<Longrightarrow> exclusive s' t = exclusive s t"
  by (simp add: exclusive_def)

lemma wf_cong:
  assumes "next_tid s' = next_tid s" and "timers s' = timers s" and "channels s' = channels s"
    and "regs s' = regs s"
  shows "well_formed s' = well_formed s"
  using assms owned_cong [OF assms(3)] exclusive_cong [OF assms(3,4)]
  by (simp add: well_formed_def ids_fresh_def)

lemma wf_say [simp]: "well_formed (say e s) = well_formed s"
  by (rule wf_cong) simp_all

lemma wf_try_call [simp]: "well_formed (try_call nm e out s) = well_formed s"
  by (rule wf_cong) simp_all

lemma wf_drop_timers:
  assumes "well_formed s"
  shows "well_formed (s\<lparr>timers := filter P (timers s)\<rparr>)"
proof -
  have "owned (s\<lparr>timers := filter P (timers s)\<rparr>) t = owned s t" for t
    by (rule owned_cong) simp
  moreover have "exclusive (s\<lparr>timers := filter P (timers s)\<rparr>) t = exclusive s t" for t
    by (rule exclusive_cong) simp_all
  ultimately show ?thesis
    using assms by (simp add: well_formed_def ids_fresh_def distinct_map_filter)
qed

lemma wf_clearTimeout: "well_formed s \<Longrightarrow> well_formed (clearTimeout i s)"
  unfolding clearTimeout_def by (rule wf_drop_timers)

lemma wf_clear_if_set: "well_formed s \<Longrightarrow> well_formed (clear_if_set x s)"
  by (simp add: clear_if_set_def wf_clearTimeout split: option.splits)

lemma wf_begin_timer: "well_formed s \<Longrightarrow> well_formed (begin_timer t s)"
proof -
  assume "well_formed s"
  then have "well_formed (s\<lparr>timers := filter (\<lambda>u. tid u \<noteq> tid t) (timers s)\<rparr>)"
    by (rule wf_drop_timers)
  moreover have "well_formed (begin_timer t s) = well_formed (s\<lparr>timers := filter (\<lambda>u. tid u \<noteq> tid t) (timers s)\<rparr>)"
    by (rule wf_cong) (simp_all add: begin_timer_def)
  ultimately show ?thesis by simp
qed

lemma wf_drop_channel:
  assumes "well_formed s" and "\<forall>t\<in>set (timers s). \<not> of_channel m t"
  shows "well_formed (s\<lparr>channels := (channels s)(m := None)\<rparr>)"
proof -
  have "owned (s\<lparr>channels := (channels s)(m := None)\<rparr>) t" if "t \<in> set (timers s)" for t
  proof -
    from that assms have o: "owned s t" and n: "\<not> of_channel m t"
      by (auto simp: well_formed_def)
    then show ?thesis
      by (cases "action t") (auto simp: owned_def of_channel_def)
  qed
  moreover have "exclusive (s\<lparr>channels := (channels s)(m := None)\<rparr>) t" if "t \<in> set (timers s)" for t
    using that assms(1) by (simp add: well_formed_def exclusive_def)
  moreover have "ids_fresh (s\<lparr>channels := (channels s)(m := None)\<rparr>)"
    using assms(1) by (simp add: well_formed_def ids_fresh_def)
  ultimately show ?thesis
    by (simp add: well_formed_def)
qed

lemma wf_owned_ids:
  assumes "well_formed s" and "channels s m = Some ch" and "t \<in> set (timers s)" and "of_channel m t"
  shows "0 < tid t \<and> (ch_timeoutId ch = Some (tid t) \<or> ch_onChangeDebounceTimer ch = Some (tid t))"
proof -
  from assms(1,3) have "owned s t" "0 < tid t"
    by (auto simp: well_formed_def ids_fresh_def)
  with assms(2,4) show ?thesis
    by (cases "action t") (auto simp: owned_def of_channel_def)
qed

lemma wf_clear: "well_formed s \<Longrightarrow> well_formed (clear m s)"
proof (cases "channels s m")
  case None
  then show "well_formed s \<Longrightarrow> well_formed (clear m s)" by (simp add: clear_def)
next
  case (Some ch)
  assume well_formed: "well_formed s"
  let ?s1 = "case Option.bind (ch_config ch) onClear of
               None \<Rightarrow> s | Some out \<Rightarrow> try_call m (HookOnClear m) out s"
  let ?s3 = "clear_if_set (ch_onChangeDebounceTimer ch) (clear_if_set (ch_timeoutId ch) ?s1)"
  let ?s4 = "if ch_storage ch \<noteq> Memory then removeFromStorage (ch_storageKey ch) (ch_storage ch) ?s3 else ?s3"
  have s1: "well_formed ?s1" "timers ?s1 = timers s" "channels ?s1 = channels s"
    using well_formed by (simp_all split: option.splits)
  have wf3: "well_formed ?s3"
    using s1(1) by (intro wf_clear_if_set)
  have t3: "timers ?s3 = filter (\<lambda>t. tid t = 0 \<or> ch_onChangeDebounceTimer ch \<noteq> Some (tid t))
              (filter (\<lambda>t. tid t = 0 \<or> ch_timeoutId ch \<noteq> Some (tid t)) (timers s))"
    by (simp add: timers_clear_if_set s1(2))
  have gone: "\<forall>t\<in>set (timers ?s3). \<not> of_channel m t"
  proof (intro ballI notI)
    fix t assume t: "t \<in> set (timers ?s3)" and o: "of_channel m t"
    from t have "t \<in> set (timers s)" by (simp add: t3)
    from wf_owned_ids [OF well_formed Some this o] t show False
      by (auto simp: t3)
  qed
  have c3: "channels ?s3 = channels s"
    by (simp add: s1(3))
  have wf4: "well_formed ?s4" and t4: "timers ?s4 = timers ?s3"
    using wf3 by (auto simp: wf_cong [of "removeFromStorage _ _ ?s3" ?s3])
  have "well_formed (?s4\<lparr>channels := (channels ?s4)(m := None)\<rparr>)"
    using wf_drop_channel [OF wf4] gone t4 by simp
  moreover have "well_formed (clear m s) = well_formed (?s4\<lparr>channels := (channels ?s4)(m := None)\<rparr>)"
    using Some by (intro wf_cong) (simp_all add: clear_def Let_def)
  ultimately show "well_formed (clear m s)" by simp
qed

lemma wf_update_reg:
  assumes "well_formed s" and "regs s w = Some r" and "debounceTimer r' = debounceTimer r"
  shows "well_formed (s\<lparr>regs := (regs s)(w \<mapsto> r')\<rparr>)"
proof -
  let ?s' = "s\<lparr>regs := (regs s)(w \<mapsto> r')\<rparr>"
  have "owned ?s' t = owned s t" for t
    by (rule owned_cong) simp
  moreover have "exclusive ?s' t" if "exclusive s t" for t
    using that assms(2,3) by (auto simp: exclusive_def)
  moreover have "ids_fresh ?s'"
    using assms by (auto simp: well_formed_def ids_fresh_def)
  ultimately show ?thesis
    using assms(1) by (simp add: well_formed_def)
qed

lemma wf_unlisten: "well_formed s \<Longrightarrow> well_formed (unlisten w s)"
proof (cases "regs s w")
  case None
  then show "well_formed s \<Longrightarrow> well_formed (unlisten w s)" by (simp add: unlisten_def)
next
  case (Some r)
  assume "well_formed s"
  then have "well_formed (clear_if_set (debounceTimer r) s)"
    by (rule wf_clear_if_set)
  moreover have "well_formed (unlisten w s) = well_formed (clear_if_set (debounceTimer r) s)"
    using Some by (intro wf_cong) (simp_all add: unlisten_def Let_def)
  ultimately show "well_formed (unlisten w s)" by simp
qed

lemma wf_executeListener: "well_formed s \<Longrightarrow> well_formed (executeListener w d s)"
proof (cases "regs s w")
  case None
  then show "well_formed s \<Longrightarrow> well_formed (executeListener w d s)" by (simp add: executeListener_def)
next
  case (Some r)
  assume well_formed: "well_formed s"
  let ?s1 = "say (ListenerCall (reg_eventName r) w (cb_id (reg_listener r)) d) s"
  let ?s2 = "?s1\<lparr>regs := (regs ?s1)(w \<mapsto> r\<lparr>hasExecuted := True\<rparr>)\<rparr>"
  have "well_formed ?s1" using well_formed by simp
  then have wf2: "well_formed ?s2"
    by (rule wf_update_reg) (simp_all add: Some)
  show "well_formed (executeListener w d s)"
  proof (cases "cb_run (reg_listener r) d")
    case Threw
    then show ?thesis using Some well_formed by (simp add: executeListener_def)
  next
    case Returned
    then show ?thesis
      using Some wf2 wf_unlisten [OF wf2] by (simp add: executeListener_def Let_def)
  qed
qed

lemma wf_fire_timer: "well_formed s \<Longrightarrow> well_formed (fire_timer t s)"
  by (cases "action t") (simp_all add: fire_timer_def wf_clear wf_executeListener)

lemma wf_step: "well_formed s \<Longrightarrow> well_formed (fire_timer t (begin_timer t s))"
  by (simp add: wf_fire_timer wf_begin_timer)

lemma wf_now: "well_formed (s\<lparr>now := x\<rparr>) = well_formed s"
  by (rule wf_cong) simp_all

lemma wf_run_until: "well_formed s \<Longrightarrow> well_formed (run_until T s)"
proof (induction T s rule: run_until.induct)
  case (1 T s)
  show ?case
  proof (cases "next_due T (timers s)")
    case None
    then show ?thesis using 1(2) by (subst run_until.simps) (simp add: wf_now)
  next
    case (Some t)
    then show ?thesis using 1 by (subst run_until.simps) (simp add: wf_step)
  qed
qed

lemma wf_advance: "well_formed s \<Longrightarrow> well_formed (advance d s)"
  by (simp add: advance_def wf_run_until)

lemma clear_if_set_keeps:
  "own \<in> set (timers s) \<Longrightarrow> x \<noteq> Some (tid own) \<Longrightarrow> own \<in> set (timers (clear_if_set x s))"
  by (simp add: timers_clear_if_set)

lemma clear_keeps:
  assumes "well_formed s" and "own \<in> set (timers s)" and "\<not> of_channel m own"
  shows "own \<in> set (timers (clear m s))"
proof (cases "channels s m")
  case None
  then show ?thesis using assms(2) by (simp add: clear_def)
next
  case (Some ch)
  from assms(1,2) have "exclusive s own" by (simp add: well_formed_def)
  with Some have "ch_timeoutId ch = Some (tid own) \<longrightarrow> action own = TtlClear m"
    and "ch_onChangeDebounceTimer ch = Some (tid own) \<longrightarrow> (\<exists>f a b. action own = OnChangeFire m f a b)"
    unfolding exclusive_def by blast+
  with assms(3) have "ch_timeoutId ch \<noteq> Some (tid own)" "ch_onChangeDebounceTimer ch \<noteq> Some (tid own)"
    by (auto simp: of_channel_def)
  then show ?thesis
    using Some assms(2) by (simp add: clear_def Let_def timers_clear_if_set split: option.splits)
qed

lemma unlisten_keeps:
  assumes "well_formed s" and "own \<in> set (timers s)" and "\<forall>d. action own \<noteq> ListenerFire w d"
  shows "own \<in> set (timers (unlisten w s))"
proof (cases "regs s w")
  case None
  then show ?thesis using assms(2) by (simp add: unlisten_def)
next
  case (Some r)
  from assms(1,2) have "exclusive s own" by (simp add: well_formed_def)
  with Some have "debounceTimer r = Some (tid own) \<longrightarrow> (\<exists>d. action own = ListenerFire w d)"
    unfolding exclusive_def by blast
  with assms(3) have "debounceTimer r \<noteq> Some (tid own)"
    by blast
  then show ?thesis
    using Some assms(2) by (simp add: unlisten_def Let_def timers_clear_if_set)
qed

lemma executeListener_keeps:
  assumes "well_formed s" and "own \<in> set (timers s)" and "\<forall>d. action own \<noteq> ListenerFire w d"
  shows "own \<in> set (timers (executeListener w d s))"
proof (cases "regs s w")
  case None
  then show ?thesis using assms(2) by (simp add: executeListener_def)
next
  case (Some r)
  let ?s1 = "say (ListenerCall (reg_eventName r) w (cb_id (reg_listener r)) d) s"
  let ?s2 = "?s1\<lparr>regs := (regs ?s1)(w \<mapsto> r\<lparr>hasExecuted := True\<rparr>)\<rparr>"
  have "well_formed ?s1" using assms(1) by simp
  then have wf2: "well_formed ?s2"
    by (rule wf_update_reg) (simp_all add: Some)
  have "own \<in> set (timers ?s2)" using assms(2) by simp
  from unlisten_keeps [OF wf2 this assms(3)] assms(2) Some show ?thesis
    by (simp add: executeListener_def Let_def split: outcome.splits)
qed

lemma step_keeps:
  assumes "well_formed s" and "own \<in> set (timers s)" and "tid own \<noteq> tid t"
    and "action own = OnChangeFire n f a b" and "action t \<noteq> TtlClear n"
  shows "own \<in> set (timers (fire_timer t (begin_timer t s)))"
proof -
  have b: "own \<in> set (timers (begin_timer t s))"
    using assms(2,3) by (simp add: begin_timer_def)
  have wfb: "well_formed (begin_timer t s)"
    using assms(1) by (rule wf_begin_timer)
  show ?thesis
  proof (cases "action t")
    case (TtlClear m)
    with assms(5) have "\<not> of_channel m own"
      by (auto simp: of_channel_def assms(4))
    from clear_keeps [OF wfb b this] TtlClear show ?thesis
      by (simp add: fire_timer_def)
  next
    case (OnChangeFire m f' a' b')
    then show ?thesis using b by (simp add: fire_timer_def)
  next
    case (ListenerFire w d)
    have "\<forall>d. action own \<noteq> ListenerFire w d" by (simp add: assms(4))
    from executeListener_keeps [OF wfb b this] ListenerFire show ?thesis
      by (simp add: fire_timer_def)
  qed
qed

lemma wf_distinct:
  assumes "well_formed s" and "t \<in> set (timers s)" and "u \<in> set (timers s)" and "tid t = tid u"
  shows "t = u"
proof -
  from assms(1) have "distinct (map tid (timers s))"
    by (simp add: well_formed_def ids_fresh_def)
  then have "inj_on tid (set (timers s))"
    by (simp add: distinct_map)
  with assms(2-4) show ?thesis
    by (auto dest: inj_onD)
qed

lemma wf_one_debounce_timer:
  assumes "well_formed s" and "t \<in> set (timers s)" and "u \<in> set (timers s)"
    and "action t = OnChangeFire n f a b" and "action u = OnChangeFire n f' a' b'"
  shows "t = u"
proof -
  from assms(1,2,3) have "owned s t" "owned s u"
    by (simp_all add: well_formed_def)
  with assms(4,5) have "tid t = tid u"
    by (auto simp: owned_def)
  with assms(1-3) show ?thesis
    by (rule wf_distinct)
qed

lemma wf_arm_debounce:
  assumes well_formed: "well_formed s" and ch: "channels s n = Some ch"
    and regs: "regs s' = regs s"
    and tm: "timers s' = filter (\<lambda>t. tid t = 0 \<or> ch_onChangeDebounceTimer ch \<noteq> Some (tid t)) (timers s)
               @ [\<lparr>tid = next_tid s, due = d, action = OnChangeFire n f a b\<rparr>]"
    and nt: "next_tid s' = Suc (next_tid s)"
    and chs: "channels s' = (channels s)(n \<mapsto> ch')"
    and keep: "ch_timeoutId ch' = ch_timeoutId ch"
    and new: "ch_onChangeDebounceTimer ch' = Some (next_tid s)"
    and cfg: "ch_config ch' = Some c" "onChange c \<noteq> None" "truthy (debounce c)"
  shows "well_formed s'"
proof -
  let ?new = "\<lparr>tid = next_tid s, due = d, action = OnChangeFire n f a b\<rparr>"
  let ?old = "filter (\<lambda>t. tid t = 0 \<or> ch_onChangeDebounceTimer ch \<noteq> Some (tid t)) (timers s)"
  from well_formed have fresh: "ids_fresh s" and own: "\<And>t. t \<in> set (timers s) \<Longrightarrow> owned s t"
    and excl: "\<And>t. t \<in> set (timers s) \<Longrightarrow> exclusive s t"
    by (simp_all add: well_formed_def)
  from fresh have pos: "0 < next_tid s" and dist: "distinct (map tid (timers s))"
    and rng: "\<And>t. t \<in> set (timers s) \<Longrightarrow> 0 < tid t \<and> tid t < next_tid s"
    and chid: "\<And>m x. channels s m = Some x \<Longrightarrow>
         id_below (next_tid s) (ch_timeoutId x) \<and> id_below (next_tid s) (ch_onChangeDebounceTimer x)"
    and rid: "\<And>w r. regs s w = Some r \<Longrightarrow> id_below (next_tid s) (debounceTimer r)"
    by (simp_all add: ids_fresh_def)
  have below_Suc: "id_below k x \<Longrightarrow> id_below (Suc k) x" for k x
    by (cases x) (simp_all add: id_below_def)
  have below_ne: "id_below k x \<Longrightarrow> x \<noteq> Some k" for k x
    by (cases x) (auto simp add: id_below_def)
  have look: "(m = n \<and> x = ch') \<or> (m \<noteq> n \<and> channels s m = Some x)"
    if "channels s' m = Some x" for m x
    using that by (cases "m = n") (simp_all add: chs)
  have f1: "ids_fresh s'"
    unfolding ids_fresh_def
  proof (intro conjI allI impI ballI)
    show "0 < next_tid s'" by (simp add: nt)
    have "next_tid s \<notin> tid ` set (timers s)"
      using rng by fastforce
    then show "distinct (map tid (timers s'))"
      using dist by (auto simp: tm distinct_map_filter)
    show "0 < tid t" if "t \<in> set (timers s')" for t
      using that rng pos by (auto simp: tm)
    show "tid t < next_tid s'" if "t \<in> set (timers s')" for t
      using that rng by (auto simp: tm nt less_Suc_eq)
    show "id_below (next_tid s') (ch_timeoutId x)" if "channels s' m = Some x" for m x
    proof (cases "m = n")
      case True
      with that have "ch_timeoutId x = ch_timeoutId ch"
        by (simp add: chs keep [symmetric])
      with chid [OF ch] below_Suc show ?thesis
        by (simp add: nt)
    next
      case False
      with that chid [of m x] below_Suc show ?thesis
        by (simp add: chs nt)
    qed
    show "id_below (next_tid s') (ch_onChangeDebounceTimer x)" if "channels s' m = Some x" for m x
      using look [OF that]
    proof
      assume "m = n \<and> x = ch'"
      then show ?thesis by (simp add: new nt id_below_def)
    next
      assume "m \<noteq> n \<and> channels s m = Some x"
      with chid [of m x] below_Suc show ?thesis by (simp add: nt)
    qed
    show "id_below (next_tid s') (debounceTimer r)" if "regs s' w = Some r" for w r
      using that rid [of w r] below_Suc by (simp add: regs nt)
  qed
  have f2: "owned s' t" if "t \<in> set (timers s')" for t
  proof (cases "t = ?new")
    case True
    then show ?thesis
      using cfg new by (simp add: owned_def chs)
  next
    case False
    with that have t: "t \<in> set (timers s)" and kept: "tid t = 0 \<or> ch_onChangeDebounceTimer ch \<noteq> Some (tid t)"
      by (auto simp: tm)
    from rng [OF t] kept have ne: "ch_onChangeDebounceTimer ch \<noteq> Some (tid t)"
      by auto
    show ?thesis
    proof (cases "action t")
      case (TtlClear m)
      with own [OF t] show ?thesis
        using ch keep by (cases "m = n") (auto simp: owned_def chs)
    next
      case (OnChangeFire m f' a' b')
      with own [OF t] ne ch have "m \<noteq> n"
        by (auto simp: owned_def)
      with own [OF t] OnChangeFire show ?thesis
        by (auto simp: owned_def chs)
    next
      case (ListenerFire w d')
      then show ?thesis by (simp add: owned_def)
    qed
  qed
  have f3: "exclusive s' t" if "t \<in> set (timers s')" for t
  proof (cases "t = ?new")
    case True
    have a: "ch_timeoutId x \<noteq> Some (next_tid s)" if "channels s m = Some x" for m x
      using chid [OF that] below_ne by blast
    have b: "ch_onChangeDebounceTimer x \<noteq> Some (next_tid s)" if "channels s m = Some x" for m x
      using chid [OF that] below_ne by blast
    have c: "debounceTimer r \<noteq> Some (next_tid s)" if "regs s w = Some r" for w r
      using rid [OF that] below_ne by blast
    show ?thesis
      unfolding exclusive_def
    proof (intro conjI allI impI)
      fix m x assume x: "channels s' m = Some x"
      show "action t = TtlClear m" if "ch_timeoutId x = Some (tid t)"
        using look [OF x]
      proof
        assume "m = n \<and> x = ch'"
        with that True a [OF ch] keep show ?thesis by simp
      next
        assume "m \<noteq> n \<and> channels s m = Some x"
        with that True a [of m x] show ?thesis by simp
      qed
      show "\<exists>f a b. action t = OnChangeFire m f a b" if "ch_onChangeDebounceTimer x = Some (tid t)"
        using look [OF x]
      proof
        assume "m = n \<and> x = ch'"
        with True show ?thesis by simp
      next
        assume "m \<noteq> n \<and> channels s m = Some x"
        with that True b [of m x] show ?thesis by simp
      qed
    next
      fix w r assume "regs s' w = Some r" and "debounceTimer r = Some (tid t)"
      then show "\<exists>d. action t = ListenerFire w d"
        using True c [of w r] by (simp add: regs)
    qed
  next
    case False
    with that have t: "t \<in> set (timers s)"
      by (auto simp: tm)
    from rng [OF t] have lt: "tid t \<noteq> next_tid s" by simp
    from excl [OF t] have e1: "\<And>m x. channels s m = Some x \<Longrightarrow>
          (ch_timeoutId x = Some (tid t) \<longrightarrow> action t = TtlClear m)
        \<and> (ch_onChangeDebounceTimer x = Some (tid t) \<longrightarrow> (\<exists>f a b. action t = OnChangeFire m f a b))"
      and e2: "\<And>w r. regs s w = Some r \<Longrightarrow> debounceTimer r = Some (tid t) \<Longrightarrow> (\<exists>d. action t = ListenerFire w d)"
      unfolding exclusive_def by blast+
    show ?thesis
      unfolding exclusive_def
    proof (intro conjI allI impI)
      fix m x assume x: "channels s' m = Some x"
      show "action t = TtlClear m" if "ch_timeoutId x = Some (tid t)"
        using look [OF x]
      proof
        assume "m = n \<and> x = ch'"
        with that e1 [OF ch] keep show ?thesis by simp
      next
        assume "m \<noteq> n \<and> channels s m = Some x"
        with that e1 [of m x] show ?thesis by simp
      qed
      show "\<exists>f a b. action t = OnChangeFire m f a b" if "ch_onChangeDebounceTimer x = Some (tid t)"
        using look [OF x]
      proof
        assume "m = n \<and> x = ch'"
        with that lt new show ?thesis by simp
      next
        assume "m \<noteq> n \<and> channels s m = Some x"
        with that e1 [of m x] show ?thesis by simp
      qed
    next
      fix w r assume "regs s' w = Some r" and "debounceTimer r = Some (tid t)"
      then show "\<exists>d. action t = ListenerFire w d"
        using e2 [of w r] by (simp add: regs)
    qed
  qed
  from f1 f2 f3 show ?thesis
    by (simp add: well_formed_def)
qed

lemma publish_debounce:
  assumes "channels s n = Some ch" and "ch_config ch = Some c" and "onChange c = Some f"
    and "debounce c = Some D" and "0 < D" and "accepted c v"
  defines "new \<equiv> \<lparr>tid = next_tid s, due = now s + timer_delay D,
                    action = OnChangeFire n f (transformed c v) (ch_signal ch)\<rparr>"
  shows "\<exists>ch'. channels (publish n v s) n = Some ch' \<and> ch_config ch' = Some c
      \<and> ch_signal ch' = transformed c v \<and> ch_timeoutId ch' = ch_timeoutId ch
      \<and> ch_onChangeDebounceTimer ch' = Some (next_tid s)"
    and "m \<noteq> n \<Longrightarrow> channels (publish n v s) m = channels s m"
    and "timers (publish n v s) =
          filter (\<lambda>t. tid t = 0 \<or> ch_onChangeDebounceTimer ch \<noteq> Some (tid t)) (timers s) @ [new]"
    and "onChange_calls n (trace (publish n v s)) = onChange_calls n (trace s)"
    and "next_tid (publish n v s) = Suc (next_tid s)"
    and "regs (publish n v s) = regs s"
proof -
  note defs = publish_def executeOnChange_def accepted_def transformed_def truthy_def
          Let_def split_beta notify_eq
  show "\<exists>ch'. channels (publish n v s) n = Some ch' \<and> ch_config ch' = Some c
      \<and> ch_signal ch' = transformed c v \<and> ch_timeoutId ch' = ch_timeoutId ch
      \<and> ch_onChangeDebounceTimer ch' = Some (next_tid s)"
    using assms(1-6) by (cases "onInit c") (simp_all add: defs)
  show "m \<noteq> n \<Longrightarrow> channels (publish n v s) m = channels s m"
    using assms(1-6) by (cases "onInit c") (simp_all add: defs)
  show "timers (publish n v s) =
          filter (\<lambda>t. tid t = 0 \<or> ch_onChangeDebounceTimer ch \<noteq> Some (tid t)) (timers s) @ [new]"
    using assms(1-6) by (cases "onInit c") (simp_all add: defs timers_clear_if_set new_def)
  show "onChange_calls n (trace (publish n v s)) = onChange_calls n (trace s)"
    using assms(1-6) by (cases "onInit c") (simp_all add: defs)
  show "next_tid (publish n v s) = Suc (next_tid s)"
    using assms(1-6) by (cases "onInit c") (simp_all add: defs)
  show "regs (publish n v s) = regs s"
    using assms(1-6) by (cases "onInit c") (simp_all add: defs)
qed

lemma wf_publish_debounce:
  assumes "well_formed s" and "channels s n = Some ch" and "ch_config ch = Some c" and "onChange c = Some f"
    and "debounce c = Some D" and "0 < D" and "accepted c v"
  shows "well_formed (publish n v s)"
proof -
  note p = publish_debounce [OF assms(2-7)]
  from p(1) obtain ch' where
    ch': "channels (publish n v s) n = Some ch'" "ch_config ch' = Some c"
      "ch_timeoutId ch' = ch_timeoutId ch" "ch_onChangeDebounceTimer ch' = Some (next_tid s)"
    by blast
  have chs: "channels (publish n v s) = (channels s)(n \<mapsto> ch')"
  proof (rule ext)
    fix m show "channels (publish n v s) m = ((channels s)(n \<mapsto> ch')) m"
      using p(2) [of m] ch'(1) by (cases "m = n") simp_all
  qed
  show ?thesis
    by (rule wf_arm_debounce [OF assms(1,2) p(6) p(3) p(5) chs ch'(3,4,2)])
       (simp_all add: assms truthy_def)
qed

lemma quiet_run:
  assumes "well_formed s" and "own \<in> set (timers s)" and "action own = OnChangeFire n f a b"
    and "T < due own" and "\<forall>t\<in>set (timers s). action t = TtlClear n \<longrightarrow> T < due t"
  shows "own \<in> set (timers (run_until T s))
    \<and> onChange_calls n (trace (run_until T s)) = onChange_calls n (trace s)"
  using assms
proof (induction T s rule: run_until.induct)
  case (1 T s)
  show ?case
  proof (cases "next_due T (timers s)")
    case None
    then show ?thesis using "1.prems"(2) by (subst (1 2) run_until.simps) simp
  next
    case (Some t)
    let ?s' = "fire_timer t (begin_timer t s)"
    from Some have t: "t \<in> set (timers s)" "due t \<le> T"
      by (rule next_due_Some)+
    with "1.prems"(4) have ne: "t \<noteq> own" by auto
    have tid: "tid own \<noteq> tid t"
      using wf_distinct [OF "1.prems"(1) t(1) "1.prems"(2)] ne by auto
    have nottl: "action t \<noteq> TtlClear n"
      using "1.prems"(5) t by auto
    have nodeb: "\<forall>f' a' b'. action t \<noteq> OnChangeFire n f' a' b'"
      using wf_one_debounce_timer [OF "1.prems"(1) t(1) "1.prems"(2) _ "1.prems"(3)] ne by blast
    have a: "well_formed ?s'" using "1.prems"(1) by (rule wf_step)
    have b: "own \<in> set (timers ?s')"
      using step_keeps [OF "1.prems"(1,2) tid "1.prems"(3) nottl] .
    have c: "\<forall>u\<in>set (timers ?s'). action u = TtlClear n \<longrightarrow> T < due u"
      using "1.prems"(5) step_timers_subset [of t s] by blast
    from "1.IH" [OF Some a b "1.prems"(3,4) c] step_onChange [OF nodeb, of s] Some
    show ?thesis
      by (subst (1 2) run_until.simps) simp
  qed
qed

lemma firing_run:
  assumes "well_formed s" and "own \<in> set (timers s)" and "action own = OnChangeFire n f a b"
    and "now s \<le> due own" and "due own \<le> T"
    and "\<forall>t\<in>set (timers s). action t = TtlClear n \<longrightarrow> due own < due t"
  shows "onChange_calls n (trace (run_until T s)) = onChange_calls n (trace s) @ [(due own, a, b)]"
  using assms
proof (induction T s rule: run_until.induct)
  case (1 T s)
  from "1.prems"(2,5) have "next_due T (timers s) \<noteq> None"
    by (auto simp: next_due_None not_less)
  then obtain t where Some: "next_due T (timers s) = Some t" by blast
  let ?s' = "fire_timer t (begin_timer t s)"
  from Some have t: "t \<in> set (timers s)" "due t \<le> T"
    by (rule next_due_Some)+
  have le: "due t \<le> due own"
    using next_due_Some(3) [OF Some "1.prems"(2,5)] .
  show ?case
  proof (cases "t = own")
    case True
    have rest: "\<forall>u\<in>set (timers ?s'). \<forall>f' a' b'. action u \<noteq> OnChangeFire n f' a' b'"
    proof (intro ballI allI notI)
      fix u f' a' b' assume u: "u \<in> set (timers ?s')" and au: "action u = OnChangeFire n f' a' b'"
      have "set (timers ?s') \<subseteq> set (timers (begin_timer t s))"
        using True "1.prems"(3) by (simp add: fire_timer_def)
      with u have u': "u \<in> set (timers s)" "tid u \<noteq> tid own"
        using True by (auto simp: begin_timer_def)
      from wf_one_debounce_timer [OF "1.prems"(1) u'(1) "1.prems"(2) au "1.prems"(3)] u'(2)
      show False by simp
    qed
    have "onChange_calls n (trace ?s') = onChange_calls n (trace s) @ [(due own, a, b)]"
      using True "1.prems"(3,4) by (simp add: fire_timer_def begin_timer_def max_def)
    with run_until_onChange [OF rest, of T] Some show ?thesis
      by (subst run_until.simps) simp
  next
    case False
    have tid: "tid own \<noteq> tid t"
      using wf_distinct [OF "1.prems"(1) t(1) "1.prems"(2)] False by auto
    have nottl: "action t \<noteq> TtlClear n"
      using "1.prems"(6) t(1) le by auto
    have nodeb: "\<forall>f' a' b'. action t \<noteq> OnChangeFire n f' a' b'"
      using wf_one_debounce_timer [OF "1.prems"(1) t(1) "1.prems"(2) _ "1.prems"(3)] False by blast
    have a: "well_formed ?s'" using "1.prems"(1) by (rule wf_step)
    have b: "own \<in> set (timers ?s')"
      using step_keeps [OF "1.prems"(1,2) tid "1.prems"(3) nottl] .
    have c: "\<forall>u\<in>set (timers ?s'). action u = TtlClear n \<longrightarrow> due own < due u"
      using "1.prems"(6) step_timers_subset [of t s] by blast
    have d: "now ?s' \<le> due own"
      using "1.prems"(4) le by simp
    from "1.IH" [OF Some a b "1.prems"(3) d "1.prems"(5) c] step_onChange [OF nodeb, of s] Some
    show ?thesis
      by (subst run_until.simps) simp
  qed
qed

lemma final_pair_last:
  "final_pair c (a, b) gvs =
     (last (a # map (\<lambda>gw. transformed c (snd gw)) gvs),
      last (butlast (b # a # map (\<lambda>gw. transformed c (snd gw)) gvs)))"
  by (induction gvs arbitrary: a b) auto

lemma debounce_burst:
  assumes "well_formed s" and "channels s n = Some ch" and "ch_config ch = Some c" and "onChange c = Some f"
    and "debounce c = Some D" and "0 < D"
    and "own \<in> set (timers s)" and "action own = OnChangeFire n f a b" and "due own = now s + D"
    and "ch_signal ch = a"
    and "\<forall>gw\<in>set gvs. fst gw < D \<and> accepted c (snd gw)" and "D \<le> g_end"
    and "\<forall>t\<in>set (timers s). action t = TtlClear n \<longrightarrow> now s + sum_list (map fst gvs) + D < due t"
    and "D < 2147483648"
  shows "onChange_calls n (trace (advance g_end (publish_after n gvs s))) =
     onChange_calls n (trace s) @
       [(now s + sum_list (map fst gvs) + D, fst (final_pair c (a, b) gvs), snd (final_pair c (a, b) gvs))]"
  using assms
proof (induction gvs arbitrary: s ch own a b)
  case Nil
  have "due own \<le> now s + g_end"
    using Nil.prems(9,12) by simp
  moreover have "\<forall>t\<in>set (timers s). action t = TtlClear n \<longrightarrow> due own < due t"
    using Nil.prems(9,13) by simp
  ultimately show ?case
    using firing_run [OF Nil.prems(1,7,8), of "now s + g_end"] Nil.prems(9)
    by (simp add: advance_def)
next
  case (Cons gw gvs)
  obtain g w where gw: "gw = (g, w)" by (cases gw)
  from Cons.prems(11) gw have g: "g < D" and acc: "accepted c w"
    and rest: "\<forall>gw\<in>set gvs. fst gw < D \<and> accepted c (snd gw)"
    by auto
  let ?s1 = "advance g s"
  let ?s2 = "publish n w ?s1"
  let ?T = "now s + g"
  have ttl1: "\<forall>t\<in>set (timers s). action t = TtlClear n \<longrightarrow> ?T < due t"
    using Cons.prems(13) gw by fastforce
  have late: "?T < due own"
    using Cons.prems(9) g by simp
  have wf1: "well_formed ?s1"
    using Cons.prems(1) by (rule wf_advance)
  have ch1: "channels ?s1 n = Some ch"
    using run_until_channels [OF ttl1] Cons.prems(2) by (simp add: advance_def)
  have now1: "now ?s1 = now s + g"
    by (simp add: advance_def)
  have tm1: "set (timers ?s1) \<subseteq> set (timers s)"
    by (simp add: advance_def run_until_timers_subset)
  have tr1: "onChange_calls n (trace ?s1) = onChange_calls n (trace s)"
    using quiet_run [OF Cons.prems(1,7,8) late ttl1] by (simp add: advance_def)
  note p = publish_debounce [OF ch1 Cons.prems(3-6) acc]
  from p(1) obtain ch' where ch': "channels ?s2 n = Some ch'" "ch_config ch' = Some c"
      "ch_signal ch' = transformed c w"
    by blast
  let ?new = "\<lparr>tid = next_tid ?s1, due = now ?s1 + D,
                action = OnChangeFire n f (transformed c w) (ch_signal ch)\<rparr>"
  have wf2: "well_formed ?s2"
    using wf_publish_debounce [OF wf1 ch1 Cons.prems(3-6) acc] .
  have new: "?new \<in> set (timers ?s2)"
    using Cons.prems(14) by (simp add: p(3))
  have ttl2: "\<forall>t\<in>set (timers ?s2). action t = TtlClear n \<longrightarrow>
       now ?s2 + sum_list (map fst gvs) + D < due t"
  proof (intro ballI impI)
    fix t assume "t \<in> set (timers ?s2)" and a: "action t = TtlClear n"
    then have "t \<in> set (timers ?s1)"
      by (auto simp: p(3))
    with tm1 have "t \<in> set (timers s)" by blast
    with Cons.prems(13) a gw show "now ?s2 + sum_list (map fst gvs) + D < due t"
      by (simp add: now1 add.assoc)
  qed
  have "onChange_calls n (trace (advance g_end (publish_after n gvs ?s2))) =
     onChange_calls n (trace ?s2) @
       [(now ?s2 + sum_list (map fst gvs) + D,
         fst (final_pair c (transformed c w, ch_signal ch) gvs),
         snd (final_pair c (transformed c w, ch_signal ch) gvs))]"
    by (rule Cons.IH [OF wf2 ch'(1,2) Cons.prems(4-6) new _ _ ch'(3) rest Cons.prems(12) ttl2
          Cons.prems(14)])
       (simp_all add: now1)
  then show ?case
    using p(4) tr1 Cons.prems(10) by (simp add: gw now1 add.assoc)
qed

lemmas chan_defs = channel_def publish_def executeOnChange_def init_def fresh_bus_def no_config_def
  getFromStorage_def saveToStorage_def setTimeout_def clear_if_set_def clearTimeout_def truthy_def
  try_call_def say_def notify_eq notify_events_def Let_def

lemmas time_defs = advance_def run_until.simps next_due_def begin_timer_def fire_timer_def clear_def
  removeFromStorage_def

lemma wf_demo: "well_formed (channel ''c'' (Some (debounce_cfg\<lparr>ttl := Some 5000\<rparr>)) (fresh_bus 1000))"
  by (simp add: debounce_cfg_def chan_defs well_formed_def ids_fresh_def owned_def exclusive_def id_below_def)

subsection \<open>Every reachable bus is well-formed\<close>

lemma wf_parts:
  assumes "well_formed s"
  shows "0 < next_tid s" and "distinct (map tid (timers s))"
    and "\<And>t. t \<in> set (timers s) \<Longrightarrow> 0 < tid t \<and> tid t < next_tid s"
    and "\<And>m x. channels s m = Some x \<Longrightarrow>
         id_below (next_tid s) (ch_timeoutId x) \<and> id_below (next_tid s) (ch_onChangeDebounceTimer x)"
    and "\<And>w r. regs s w = Some r \<Longrightarrow> id_below (next_tid s) (debounceTimer r)"
    and "\<And>t. t \<in> set (timers s) \<Longrightarrow> owned s t"
    and "\<And>t m x. t \<in> set (timers s) \<Longrightarrow> channels s m = Some x \<Longrightarrow>
          ch_timeoutId x = Some (tid t) \<Longrightarrow> action t = TtlClear m"
    and "\<And>t m x. t \<in> set (timers s) \<Longrightarrow> channels s m = Some x \<Longrightarrow>
          ch_onChangeDebounceTimer x = Some (tid t) \<Longrightarrow> \<exists>f a b. action t = OnChangeFire m f a b"
    and "\<And>t w r. t \<in> set (timers s) \<Longrightarrow> regs s w = Some r \<Longrightarrow>
          debounceTimer r = Some (tid t) \<Longrightarrow> \<exists>d. action t = ListenerFire w d"
  using assms unfolding well_formed_def ids_fresh_def exclusive_def by blast+

lemma id_below_Suc: "id_below k x \<Longrightarrow> id_below (Suc k) x"
  by (cases x) (simp_all add: id_below_def)

lemma id_below_ne: "id_below k x \<Longrightarrow> x \<noteq> Some k"
  by (cases x) (auto simp add: id_below_def)

lemma wfI:
  assumes "0 < next_tid s" and "distinct (map tid (timers s))"
    and "\<And>t. t \<in> set (timers s) \<Longrightarrow> 0 < tid t \<and> tid t < next_tid s"
    and "\<And>m x. channels s m = Some x \<Longrightarrow>
         id_below (next_tid s) (ch_timeoutId x) \<and> id_below (next_tid s) (ch_onChangeDebounceTimer x)"
    and "\<And>w r. regs s w = Some r \<Longrightarrow> id_below (next_tid s) (debounceTimer r)"
    and "\<And>t. t \<in> set (timers s) \<Longrightarrow> owned s t"
    and "\<And>t m x. t \<in> set (timers s) \<Longrightarrow> channels s m = Some x \<Longrightarrow>
          ch_timeoutId x = Some (tid t) \<Longrightarrow> action t = TtlClear m"
    and "\<And>t m x. t \<in> set (timers s) \<Longrightarrow> channels s m = Some x \<Longrightarrow>
          ch_onChangeDebounceTimer x = Some (tid t) \<Longrightarrow> \<exists>f a b. action t = OnChangeFire m f a b"
    and "\<And>t w r. t \<in> set (timers s) \<Longrightarrow> regs s w = Some r \<Longrightarrow>
          debounceTimer r = Some (tid t) \<Longrightarrow> \<exists>d. action t = ListenerFire w d"
  shows "well_formed s"
  unfolding well_formed_def ids_fresh_def exclusive_def using assms by blast

lemma owned_other_channel:
  assumes "owned s t" and "\<not> of_channel n t" and "\<And>m. m \<noteq> n \<Longrightarrow> channels s' m = channels s m"
  shows "owned s' t"
  using assms by (cases "action t") (auto simp: owned_def of_channel_def)

lemma wf_update_channel:
  assumes well_formed: "well_formed s" and ch: "channels s n = Some ch"
    and same: "next_tid s' = next_tid s" "timers s' = timers s" "regs s' = regs s"
    and chs: "channels s' = (channels s)(n \<mapsto> ch')"
    and keep: "ch_timeoutId ch' = ch_timeoutId ch"
      "ch_onChangeDebounceTimer ch' = ch_onChangeDebounceTimer ch" "ch_config ch' = ch_config ch"
  shows "well_formed s'"
proof -
  note p = wf_parts [OF well_formed]
  have look: "(m = n \<and> x = ch') \<or> (m \<noteq> n \<and> channels s m = Some x)"
    if "channels s' m = Some x" for m x
    using that by (cases "m = n") (simp_all add: chs)
  show ?thesis
  proof (rule wfI)
    show "0 < next_tid s'" "distinct (map tid (timers s'))"
      using p(1,2) by (simp_all add: same)
    show "0 < tid t \<and> tid t < next_tid s'" if "t \<in> set (timers s')" for t
      using that p(3) by (simp add: same)
    show "id_below (next_tid s') (ch_timeoutId x) \<and> id_below (next_tid s') (ch_onChangeDebounceTimer x)"
      if "channels s' m = Some x" for m x
      using look [OF that] p(4) [OF ch] p(4) [of m x] keep by (auto simp: same)
    show "id_below (next_tid s') (debounceTimer r)" if "regs s' w = Some r" for w r
      using that p(5) by (simp add: same)
    show "owned s' t" if "t \<in> set (timers s')" for t
    proof (cases "of_channel n t")
      case False
      with that p(6) [of t] show ?thesis
        by (intro owned_other_channel [of s t n s']) (simp_all add: same chs)
    next
      case True
      with that p(6) [of t] ch keep show ?thesis
        by (cases "action t") (auto simp: owned_def of_channel_def same chs)
    qed
    show "action t = TtlClear m"
      if "t \<in> set (timers s')" "channels s' m = Some x" "ch_timeoutId x = Some (tid t)" for t m x
      using look [OF that(2)] that(1,3) p(7) [of t m x] p(7) [OF _ ch, of t] keep
      by (auto simp: same)
    show "\<exists>f a b. action t = OnChangeFire m f a b"
      if "t \<in> set (timers s')" "channels s' m = Some x" "ch_onChangeDebounceTimer x = Some (tid t)" for t m x
      using look [OF that(2)] that(1,3) p(8) [of t m x] p(8) [OF _ ch, of t] keep
      by (auto simp: same)
    show "\<exists>d. action t = ListenerFire w d"
      if "t \<in> set (timers s')" "regs s' w = Some r" "debounceTimer r = Some (tid t)" for t w r
      using that p(9) [of t w r] by (simp add: same)
  qed
qed

lemma wf_no_timers_of_missing:
  assumes "well_formed s" and "channels s n = None" and "t \<in> set (timers s)"
  shows "\<not> of_channel n t"
  using wf_parts(6) [OF assms(1,3)] assms(2)
  by (cases "action t") (auto simp: owned_def of_channel_def)

lemma wf_create_channel:
  assumes well_formed: "well_formed s" and ch: "channels s n = None"
    and same: "next_tid s' = next_tid s" "timers s' = timers s" "regs s' = regs s"
    and chs: "channels s' = (channels s)(n \<mapsto> ch')"
    and ids: "ch_timeoutId ch' = None" "ch_onChangeDebounceTimer ch' = None"
  shows "well_formed s'"
proof -
  note p = wf_parts [OF well_formed]
  have look: "(m = n \<and> x = ch') \<or> (m \<noteq> n \<and> channels s m = Some x)"
    if "channels s' m = Some x" for m x
    using that by (cases "m = n") (simp_all add: chs)
  show ?thesis
  proof (rule wfI)
    show "0 < next_tid s'" "distinct (map tid (timers s'))"
      using p(1,2) by (simp_all add: same)
    show "0 < tid t \<and> tid t < next_tid s'" if "t \<in> set (timers s')" for t
      using that p(3) by (simp add: same)
    show "id_below (next_tid s') (ch_timeoutId x) \<and> id_below (next_tid s') (ch_onChangeDebounceTimer x)"
      if "channels s' m = Some x" for m x
      using look [OF that] p(4) [of m x] ids by (auto simp: same id_below_def)
    show "id_below (next_tid s') (debounceTimer r)" if "regs s' w = Some r" for w r
      using that p(5) by (simp add: same)
    show "owned s' t" if "t \<in> set (timers s')" for t
      using that p(6) [of t] wf_no_timers_of_missing [OF well_formed ch, of t]
      by (intro owned_other_channel [of s t n s']) (simp_all add: same chs)
    show "action t = TtlClear m"
      if "t \<in> set (timers s')" "channels s' m = Some x" "ch_timeoutId x = Some (tid t)" for t m x
      using look [OF that(2)] that(1,3) p(7) [of t m x] ids by (auto simp: same)
    show "\<exists>f a b. action t = OnChangeFire m f a b"
      if "t \<in> set (timers s')" "channels s' m = Some x" "ch_onChangeDebounceTimer x = Some (tid t)" for t m x
      using look [OF that(2)] that(1,3) p(8) [of t m x] ids by (auto simp: same)
    show "\<exists>d. action t = ListenerFire w d"
      if "t \<in> set (timers s')" "regs s' w = Some r" "debounceTimer r = Some (tid t)" for t w r
      using that p(9) [of t w r] by (simp add: same)
  qed
qed

lemma wf_create_channel_ttl:
  assumes well_formed: "well_formed s" and ch: "channels s n = None"
    and nt: "next_tid s' = Suc (next_tid s)"
    and tm: "timers s' = timers s @ [\<lparr>tid = next_tid s, due = d, action = TtlClear n\<rparr>]"
    and regs: "regs s' = regs s"
    and chs: "channels s' = (channels s)(n \<mapsto> ch')"
    and ids: "ch_timeoutId ch' = Some (next_tid s)" "ch_onChangeDebounceTimer ch' = None"
  shows "well_formed s'"
proof -
  note p = wf_parts [OF well_formed]
  let ?new = "\<lparr>tid = next_tid s, due = d, action = TtlClear n\<rparr>"
  have look: "(m = n \<and> x = ch') \<or> (m \<noteq> n \<and> channels s m = Some x)"
    if "channels s' m = Some x" for m x
    using that by (cases "m = n") (simp_all add: chs)
  have mem: "t = ?new \<or> (t \<in> set (timers s) \<and> tid t \<noteq> next_tid s)" if "t \<in> set (timers s')" for t
    using that p(3) [of t] by (auto simp: tm)
  show ?thesis
  proof (rule wfI)
    show "0 < next_tid s'" by (simp add: nt)
    have "next_tid s \<notin> tid ` set (timers s)"
      using p(3) by fastforce
    then show "distinct (map tid (timers s'))"
      using p(2) by (simp add: tm)
    show "0 < tid t \<and> tid t < next_tid s'" if "t \<in> set (timers s')" for t
      using mem [OF that] p(1) p(3) [of t] by (auto simp: nt)
    show "id_below (next_tid s') (ch_timeoutId x) \<and> id_below (next_tid s') (ch_onChangeDebounceTimer x)"
      if "channels s' m = Some x" for m x
      using look [OF that] p(4) [of m x] ids id_below_Suc by (auto simp: nt id_below_def)
    show "id_below (next_tid s') (debounceTimer r)" if "regs s' w = Some r" for w r
      using that p(5) [of w r] id_below_Suc by (simp add: regs nt)
    show "owned s' t" if "t \<in> set (timers s')" for t
      using mem [OF that]
    proof
      assume "t = ?new"
      then show ?thesis using ids by (simp add: owned_def chs)
    next
      assume "t \<in> set (timers s) \<and> tid t \<noteq> next_tid s"
      then show ?thesis
        using p(6) [of t] wf_no_timers_of_missing [OF well_formed ch, of t]
        by (intro owned_other_channel [of s t n s']) (simp_all add: chs)
    qed
    show "action t = TtlClear m"
      if "t \<in> set (timers s')" "channels s' m = Some x" "ch_timeoutId x = Some (tid t)" for t m x
      using mem [OF that(1)] look [OF that(2)] that(3) p(7) [of t m x] ids
        id_below_ne [of "next_tid s" "ch_timeoutId x"] p(4) [of m x]
      by auto
    show "\<exists>f a b. action t = OnChangeFire m f a b"
      if "t \<in> set (timers s')" "channels s' m = Some x" "ch_onChangeDebounceTimer x = Some (tid t)" for t m x
      using mem [OF that(1)] look [OF that(2)] that(3) p(8) [of t m x] ids
        id_below_ne [of "next_tid s" "ch_onChangeDebounceTimer x"] p(4) [of m x]
      by auto
    show "\<exists>d. action t = ListenerFire w d"
      if "t \<in> set (timers s')" "regs s' w = Some r" "debounceTimer r = Some (tid t)" for t w r
      using mem [OF that(1)] that(2,3) p(9) [of t w r]
        id_below_ne [of "next_tid s" "debounceTimer r"] p(5) [of w r]
      by (auto simp: regs)
  qed
qed

lemma wf_arm_listener:
  assumes well_formed: "well_formed s" and reg: "regs s w = Some r"
    and nt: "next_tid s' = Suc (next_tid s)"
    and tm: "timers s' = filter (\<lambda>t. tid t = 0 \<or> debounceTimer r \<noteq> Some (tid t)) (timers s)
               @ [\<lparr>tid = next_tid s, due = d, action = ListenerFire w x\<rparr>]"
    and regs: "regs s' = (regs s)(w \<mapsto> r')"
    and chs: "channels s' = channels s"
    and new: "debounceTimer r' = Some (next_tid s)"
  shows "well_formed s'"
proof -
  note p = wf_parts [OF well_formed]
  let ?new = "\<lparr>tid = next_tid s, due = d, action = ListenerFire w x\<rparr>"
  have look: "(v = w \<and> y = r') \<or> (v \<noteq> w \<and> regs s v = Some y)"
    if "regs s' v = Some y" for v y
    using that by (cases "v = w") (simp_all add: regs)
  have mem: "t = ?new \<or> (t \<in> set (timers s) \<and> tid t \<noteq> next_tid s \<and> debounceTimer r \<noteq> Some (tid t))"
    if "t \<in> set (timers s')" for t
    using that p(3) [of t] by (auto simp: tm)
  show ?thesis
  proof (rule wfI)
    show "0 < next_tid s'" by (simp add: nt)
    have "next_tid s \<notin> tid ` set (timers s)"
      using p(3) by fastforce
    then show "distinct (map tid (timers s'))"
      using p(2) by (auto simp: tm distinct_map_filter)
    show "0 < tid t \<and> tid t < next_tid s'" if "t \<in> set (timers s')" for t
      using mem [OF that] p(1) p(3) [of t] by (auto simp: nt)
    show "id_below (next_tid s') (ch_timeoutId y) \<and> id_below (next_tid s') (ch_onChangeDebounceTimer y)"
      if "channels s' m = Some y" for m y
      using that p(4) [of m y] id_below_Suc by (auto simp: nt chs)
    show "id_below (next_tid s') (debounceTimer y)" if "regs s' v = Some y" for v y
      using look [OF that] p(5) [of v y] id_below_Suc new by (auto simp: nt id_below_def)
    show "owned s' t" if "t \<in> set (timers s')" for t
      using mem [OF that]
    proof
      assume "t = ?new"
      then show ?thesis by (simp add: owned_def)
    next
      assume "t \<in> set (timers s) \<and> tid t \<noteq> next_tid s \<and> debounceTimer r \<noteq> Some (tid t)"
      then show ?thesis
        using p(6) [of t] by (cases "action t") (auto simp: owned_def chs)
    qed
    show "action t = TtlClear m"
      if "t \<in> set (timers s')" "channels s' m = Some y" "ch_timeoutId y = Some (tid t)" for t m y
      using mem [OF that(1)] that(2,3) p(7) [of t m y]
        id_below_ne [of "next_tid s" "ch_timeoutId y"] p(4) [of m y]
      by (auto simp: chs)
    show "\<exists>f a b. action t = OnChangeFire m f a b"
      if "t \<in> set (timers s')" "channels s' m = Some y" "ch_onChangeDebounceTimer y = Some (tid t)" for t m y
      using mem [OF that(1)] that(2,3) p(8) [of t m y]
        id_below_ne [of "next_tid s" "ch_onChangeDebounceTimer y"] p(4) [of m y]
      by (auto simp: chs)
    show "\<exists>d. action t = ListenerFire v d"
      if "t \<in> set (timers s')" "regs s' v = Some y" "debounceTimer y = Some (tid t)" for t v y
      using mem [OF that(1)] look [OF that(2)] that(3) p(9) [of t v y] new
        id_below_ne [of "next_tid s" "debounceTimer y"] p(5) [of v y]
      by auto
  qed
qed

lemma wf_new_reg:
  assumes well_formed: "well_formed s" and "debounceTimer r' = None"
  shows "well_formed (s\<lparr>regs := (regs s)(w \<mapsto> r')\<rparr>)"
proof -
  note p = wf_parts [OF well_formed]
  let ?s' = "s\<lparr>regs := (regs s)(w \<mapsto> r')\<rparr>"
  have look: "(v = w \<and> y = r') \<or> (v \<noteq> w \<and> regs s v = Some y)"
    if "regs ?s' v = Some y" for v y
    using that by (cases "v = w") simp_all
  show ?thesis
  proof (rule wfI)
    show "0 < next_tid ?s'" "distinct (map tid (timers ?s'))"
      using p(1,2) by simp_all
    show "0 < tid t \<and> tid t < next_tid ?s'" if "t \<in> set (timers ?s')" for t
      using that p(3) by simp
    show "id_below (next_tid ?s') (ch_timeoutId x) \<and> id_below (next_tid ?s') (ch_onChangeDebounceTimer x)"
      if "channels ?s' m = Some x" for m x
      using that p(4) [of m x] by simp
    show "id_below (next_tid ?s') (debounceTimer y)" if "regs ?s' v = Some y" for v y
      using look [OF that] p(5) [of v y] assms(2) by (auto simp: id_below_def)
    show "owned ?s' t" if "t \<in> set (timers ?s')" for t
      using that p(6) [of t] owned_cong [of ?s' s t] by simp
    show "action t = TtlClear m"
      if "t \<in> set (timers ?s')" "channels ?s' m = Some x" "ch_timeoutId x = Some (tid t)" for t m x
      using that p(7) [of t m x] by simp
    show "\<exists>f a b. action t = OnChangeFire m f a b"
      if "t \<in> set (timers ?s')" "channels ?s' m = Some x" "ch_onChangeDebounceTimer x = Some (tid t)" for t m x
      using that p(8) [of t m x] by simp
    show "\<exists>d. action t = ListenerFire v d"
      if "t \<in> set (timers ?s')" "regs ?s' v = Some y" "debounceTimer y = Some (tid t)" for t v y
      using look [OF that(2)] that(1,3) p(9) [of t v y] assms(2) by auto
  qed
qed

lemma wf_init: "well_formed (init s) = well_formed s"
  by (rule wf_cong) simp_all

lemma channel_existing: "channels s n = Some ch \<Longrightarrow> channel n cfg s = init s"
  by (simp add: channel_def)

lemma channel_shape:
  fixes cfg :: "config option"
  assumes "channels s n = None"
  defines "c \<equiv> (case cfg of None \<Rightarrow> no_config | Some c \<Rightarrow> c)"
  defines "s' \<equiv> channel n cfg s"
  shows "regs s' = regs s"
    and "m \<noteq> n \<Longrightarrow> channels s' m = channels s m"
    and "\<not> truthy (ttl c) \<Longrightarrow> timers s' = timers s \<and> next_tid s' = next_tid s
          \<and> (\<exists>ch'. channels s' n = Some ch' \<and> ch_timeoutId ch' = None \<and> ch_onChangeDebounceTimer ch' = None)"
    and "truthy (ttl c) \<Longrightarrow> \<exists>d. timers s' = timers s @ [\<lparr>tid = next_tid s, due = d, action = TtlClear n\<rparr>]
          \<and> next_tid s' = Suc (next_tid s)
          \<and> (\<exists>ch'. channels s' n = Some ch' \<and> ch_timeoutId ch' = Some (next_tid s)
                \<and> ch_onChangeDebounceTimer ch' = None)"
proof -
  note defs = s'_def c_def channel_def Let_def split_beta truthy_def
  show "regs s' = regs s"
    using assms(1)
    by (cases cfg; cases "ttl c"; cases "onInit c") (simp_all add: defs no_config_def)
  show "m \<noteq> n \<Longrightarrow> channels s' m = channels s m"
    using assms(1)
    by (cases cfg; cases "ttl c"; cases "onInit c") (simp_all add: defs no_config_def)
  show "\<not> truthy (ttl c) \<Longrightarrow> timers s' = timers s \<and> next_tid s' = next_tid s
          \<and> (\<exists>ch'. channels s' n = Some ch' \<and> ch_timeoutId ch' = None \<and> ch_onChangeDebounceTimer ch' = None)"
    using assms(1)
    by (cases cfg; cases "ttl c"; cases "onInit c") (simp_all add: defs no_config_def)
  show "truthy (ttl c) \<Longrightarrow> \<exists>d. timers s' = timers s @ [\<lparr>tid = next_tid s, due = d, action = TtlClear n\<rparr>]
          \<and> next_tid s' = Suc (next_tid s)
          \<and> (\<exists>ch'. channels s' n = Some ch' \<and> ch_timeoutId ch' = Some (next_tid s)
                \<and> ch_onChangeDebounceTimer ch' = None)"
    using assms(1)
    by (cases cfg; cases "ttl c"; cases "onInit c") (simp_all add: defs no_config_def)
qed

lemma map_upd_eqI:
  assumes "\<And>m. m \<noteq> n \<Longrightarrow> f' m = f m" and "f' n = Some x"
  shows "f' = f(n \<mapsto> x)"
  using assms by (auto simp: fun_eq_iff)

lemma wf_channel: "well_formed s \<Longrightarrow> well_formed (channel n cfg s)"
proof (cases "channels s n")
  case (Some ch)
  then show "well_formed s \<Longrightarrow> well_formed (channel n cfg s)"
    by (simp add: channel_existing wf_init)
next
  case None
  assume well_formed: "well_formed s"
  let ?c = "case cfg of None \<Rightarrow> no_config | Some c \<Rightarrow> c"
  let ?s' = "channel n cfg s"
  note sh = channel_shape [OF None, where cfg = cfg]
  show "well_formed ?s'"
  proof (cases "truthy (ttl ?c)")
    case False
    from sh(3) [OF False] obtain ch' where a: "timers ?s' = timers s" "next_tid ?s' = next_tid s"
      "channels ?s' n = Some ch'" "ch_timeoutId ch' = None" "ch_onChangeDebounceTimer ch' = None"
      by blast
    have "channels ?s' = (channels s)(n \<mapsto> ch')"
      using sh(2) a(3) by (intro map_upd_eqI)
    then show ?thesis
      using wf_create_channel [OF well_formed None a(2,1) sh(1) _ a(4,5)] by blast
  next
    case True
    from sh(4) [OF True] obtain d ch' where
      a: "timers ?s' = timers s @ [\<lparr>tid = next_tid s, due = d, action = TtlClear n\<rparr>]"
      "next_tid ?s' = Suc (next_tid s)"
      "channels ?s' n = Some ch'" "ch_timeoutId ch' = Some (next_tid s)" "ch_onChangeDebounceTimer ch' = None"
      by blast
    have "channels ?s' = (channels s)(n \<mapsto> ch')"
      using sh(2) a(3) by (intro map_upd_eqI)
    then show ?thesis
      using wf_create_channel_ttl [OF well_formed None a(2,1) sh(1) _ a(4,5)] by blast
  qed
qed

lemma executeOnChange_shape:
  shows "regs (snd (executeOnChange n ch a b s)) = regs s"
    and "ch_timeoutId (fst (executeOnChange n ch a b s)) = ch_timeoutId ch"
    and "ch_config (fst (executeOnChange n ch a b s)) = ch_config ch"
    and "(timers (snd (executeOnChange n ch a b s)) = timers s
          \<and> next_tid (snd (executeOnChange n ch a b s)) = next_tid s
          \<and> ch_onChangeDebounceTimer (fst (executeOnChange n ch a b s)) = ch_onChangeDebounceTimer ch)
       \<or> (\<exists>c f d. ch_config ch = Some c \<and> onChange c = Some f \<and> truthy (debounce c)
          \<and> timers (snd (executeOnChange n ch a b s)) =
               filter (\<lambda>t. tid t = 0 \<or> ch_onChangeDebounceTimer ch \<noteq> Some (tid t)) (timers s)
                 @ [\<lparr>tid = next_tid s, due = d, action = OnChangeFire n f a b\<rparr>]
          \<and> next_tid (snd (executeOnChange n ch a b s)) = Suc (next_tid s)
          \<and> ch_onChangeDebounceTimer (fst (executeOnChange n ch a b s)) = Some (next_tid s))"
proof -
  show "regs (snd (executeOnChange n ch a b s)) = regs s"
    by (simp add: executeOnChange_def Let_def split_beta split: option.splits)
  show "ch_timeoutId (fst (executeOnChange n ch a b s)) = ch_timeoutId ch"
    by (simp add: executeOnChange_def Let_def split_beta split: option.splits)
  show "ch_config (fst (executeOnChange n ch a b s)) = ch_config ch"
    by (simp add: executeOnChange_def Let_def split_beta split: option.splits)
  show "(timers (snd (executeOnChange n ch a b s)) = timers s
          \<and> next_tid (snd (executeOnChange n ch a b s)) = next_tid s
          \<and> ch_onChangeDebounceTimer (fst (executeOnChange n ch a b s)) = ch_onChangeDebounceTimer ch)
       \<or> (\<exists>c f d. ch_config ch = Some c \<and> onChange c = Some f \<and> truthy (debounce c)
          \<and> timers (snd (executeOnChange n ch a b s)) =
               filter (\<lambda>t. tid t = 0 \<or> ch_onChangeDebounceTimer ch \<noteq> Some (tid t)) (timers s)
                 @ [\<lparr>tid = next_tid s, due = d, action = OnChangeFire n f a b\<rparr>]
          \<and> next_tid (snd (executeOnChange n ch a b s)) = Suc (next_tid s)
          \<and> ch_onChangeDebounceTimer (fst (executeOnChange n ch a b s)) = Some (next_tid s))"
    by (cases "ch_config ch"; cases "Option.bind (ch_config ch) onChange")
       (auto simp add: executeOnChange_def Let_def split_beta timers_clear_if_set)
qed

lemma wf_publish: "well_formed s \<Longrightarrow> well_formed (publish n v s)"
proof (cases "channels s n")
  case None
  then show "well_formed s \<Longrightarrow> well_formed (publish n v s)"
    by (simp add: publish_def wf_channel)
next
  case (Some ch)
  assume well_formed: "well_formed s"
  show "well_formed (publish n v s)"
  proof (cases "case Option.bind (ch_config ch) validate of None \<Rightarrow> True | Some f \<Rightarrow> f v")
    case False
    then show ?thesis
      using Some well_formed by (simp add: publish_def)
  next
    case True
    let ?tv = "case Option.bind (ch_config ch) transform of None \<Rightarrow> v | Some f \<Rightarrow> f v"
    let ?fires = "\<not> ch_isInitialized ch \<and> ?tv \<noteq> Undefined \<and> ?tv \<noteq> Null"
    let ?s1 = "if ch_storage ch \<noteq> Memory
               then saveToStorage (ch_storageKey ch) ?tv (ch_storage ch) s
               else say ConsoleLog s"
    let ?s2 = "if ?fires then (case Option.bind (ch_config ch) onInit of None \<Rightarrow> ?s1
                              | Some h \<Rightarrow> try_call n (HookOnInit n ?tv) (h ?tv) ?s1) else ?s1"
    let ?ch2 = "if ?fires then ch\<lparr>ch_signal := ?tv\<rparr>\<lparr>ch_isInitialized := True\<rparr> else ch\<lparr>ch_signal := ?tv\<rparr>"
    let ?r = "executeOnChange n ?ch2 ?tv (ch_signal ch) ?s2"
    let ?P = "publish n v s"
    have s2: "timers ?s2 = timers s" "next_tid ?s2 = next_tid s" "regs ?s2 = regs s"
      "channels ?s2 = channels s"
      by (simp_all split: option.splits)
    have c2: "ch_onChangeDebounceTimer ?ch2 = ch_onChangeDebounceTimer ch"
      "ch_timeoutId ?ch2 = ch_timeoutId ch" "ch_config ?ch2 = ch_config ch"
      by simp_all
    have P: "timers ?P = timers (snd ?r)" "next_tid ?P = next_tid (snd ?r)" "regs ?P = regs (snd ?r)"
      "channels ?P = (channels s)(n \<mapsto> fst ?r)"
      using Some True s2(4)
      by (simp_all add: publish_def Let_def split_beta notify_eq executeOnChange_frame)
    note sh = executeOnChange_shape [of n ?ch2 ?tv "ch_signal ch" ?s2]
    from sh(4) show ?thesis
    proof
      assume "timers (snd ?r) = timers ?s2 \<and> next_tid (snd ?r) = next_tid ?s2
          \<and> ch_onChangeDebounceTimer (fst ?r) = ch_onChangeDebounceTimer ?ch2"
      then show ?thesis
        by (intro wf_update_channel [OF well_formed Some, where s' = ?P and ch' = "fst ?r"])
           (simp_all only: P sh(1,2,3) s2 c2)
    next
      assume "\<exists>c f d. ch_config ?ch2 = Some c \<and> onChange c = Some f \<and> truthy (debounce c)
          \<and> timers (snd ?r) =
               filter (\<lambda>t. tid t = 0 \<or> ch_onChangeDebounceTimer ?ch2 \<noteq> Some (tid t)) (timers ?s2)
                 @ [\<lparr>tid = next_tid ?s2, due = d, action = OnChangeFire n f ?tv (ch_signal ch)\<rparr>]
          \<and> next_tid (snd ?r) = Suc (next_tid ?s2)
          \<and> ch_onChangeDebounceTimer (fst ?r) = Some (next_tid ?s2)"
      then obtain c f d where b: "ch_config ?ch2 = Some c" "onChange c = Some f" "truthy (debounce c)"
          "timers (snd ?r) =
               filter (\<lambda>t. tid t = 0 \<or> ch_onChangeDebounceTimer ?ch2 \<noteq> Some (tid t)) (timers ?s2)
                 @ [\<lparr>tid = next_tid ?s2, due = d, action = OnChangeFire n f ?tv (ch_signal ch)\<rparr>]"
          "next_tid (snd ?r) = Suc (next_tid ?s2)"
          "ch_onChangeDebounceTimer (fst ?r) = Some (next_tid ?s2)"
        by blast
      have cfg: "ch_config (fst ?r) = Some c"
        using sh(3) b(1) by simp
      show ?thesis
        by (rule wf_arm_debounce [OF well_formed Some, where s' = ?P and d = d and f = f and a = ?tv
                and b = "ch_signal ch" and ch' = "fst ?r" and c = c])
           (simp_all only: P sh(1,2) s2 c2 b cfg, simp_all)
    qed
  qed
qed

lemma subscribe_returns: "\<exists>h s'. subscribe n cb s = Some (h, s')"
proof (cases "channels s n")
  case (Some ch)
  then show ?thesis by (simp add: subscribe_def)
next
  case None
  from channel_shape(3,4) [OF None, where cfg = None]
  have "\<exists>ch'. channels (channel n None s) n = Some ch'"
    by (cases "truthy (ttl no_config)") auto
  then show ?thesis
    using None by (auto simp: subscribe_def Let_def)
qed

lemma wf_subscribe:
  assumes "well_formed s" and "subscribe n cb s = Some (h, s')"
  shows "well_formed s'"
proof -
  let ?s0 = "case channels s n of None \<Rightarrow> channel n None s | Some x \<Rightarrow> s"
  have wf0: "well_formed ?s0"
    using assms(1) by (simp add: wf_channel split: option.splits)
  from assms(2) obtain ch where ch: "channels ?s0 n = Some ch"
    and s': "s' = ?s0\<lparr>channels := (channels ?s0)(n \<mapsto> ch\<lparr>ch_subscribers := set_add cb (ch_subscribers ch)\<rparr>)\<rparr>"
    by (auto simp: subscribe_def Let_def split: option.splits)
  show ?thesis
    unfolding s'
    by (rule wf_update_channel [OF wf0 ch,
          where ch' = "ch\<lparr>ch_subscribers := set_add cb (ch_subscribers ch)\<rparr>"]) simp_all
qed

lemma wf_retired: "well_formed (s\<lparr>retired := x\<rparr>) = well_formed s"
  by (rule wf_cong) simp_all

lemma wf_unsubscribe: "well_formed s \<Longrightarrow> well_formed (unsubscribe h s)"
proof -
  assume well_formed: "well_formed s"
  let ?nm = "h_channelName h"
  let ?live = "case channels s ?nm of None \<Rightarrow> None
               | Some ch \<Rightarrow> if ch_id ch = h_object h then Some ch else None"
  show ?thesis
  proof (cases ?live)
    case (Some ch)
    then have ch: "channels s ?nm = Some ch"
      by (auto split: option.splits if_splits)
    let ?ch' = "ch\<lparr>ch_subscribers := set_delete (h_callback h) (ch_subscribers ch)\<rparr>"
    let ?s1 = "s\<lparr>channels := (channels s)(?nm \<mapsto> ?ch')\<rparr>"
    have "well_formed ?s1"
      by (rule wf_update_channel [OF well_formed ch, where ch' = ?ch']) simp_all
    then have "well_formed (clear ?nm ?s1)"
      by (rule wf_clear)
    moreover have "unsubscribe h s = clear ?nm ?s1 \<or> unsubscribe h s = ?s1"
      using Some by (simp add: unsubscribe_def Let_def)
    ultimately show ?thesis
      using \<open>well_formed ?s1\<close> by metis
  next
    case None
    show ?thesis
    proof (cases "retired s (h_object h)")
      case N: None
      then show ?thesis using None well_formed by (simp add: unsubscribe_def Let_def)
    next
      case (Some ch)
      let ?ch' = "ch\<lparr>ch_subscribers := set_delete (h_callback h) (ch_subscribers ch)\<rparr>"
      let ?s1 = "s\<lparr>retired := (retired s)(h_object h \<mapsto> ?ch')\<rparr>"
      have "well_formed ?s1"
        using well_formed by (simp add: wf_retired)
      then have "well_formed (clear ?nm ?s1)"
        by (rule wf_clear)
      moreover have "unsubscribe h s = clear ?nm ?s1 \<or> unsubscribe h s = ?s1"
        using None Some by (simp add: unsubscribe_def Let_def)
      ultimately show ?thesis
        using \<open>well_formed ?s1\<close> by metis
    qed
  qed
qed

lemma wf_off: "well_formed (off n s) = well_formed s"
  by (rule wf_cong) (simp_all add: off_def)

lemma wf_on: "well_formed s \<Longrightarrow> well_formed (snd (on n l opts s))"
proof -
  assume well_formed: "well_formed s"
  let ?as = "case eventListeners s n of
               Some a \<Rightarrow> (a, s)
             | None \<Rightarrow> (next_obj s,
                        s\<lparr>eventListeners := (eventListeners s)(n \<mapsto> next_obj s),
                           sets := (sets s)(next_obj s \<mapsto> []),
                           next_obj := Suc (next_obj s)\<rparr>)"
  let ?a = "fst ?as" and ?s0 = "snd ?as"
  let ?r = "\<lparr>reg_eventName = n, reg_listener = l, reg_options = opts,
             reg_listeners = ?a, debounceTimer = None, lastCallTime = 0, hasExecuted = False\<rparr>"
  have "well_formed ?s0 = well_formed s"
    by (rule wf_cong) (simp_all split: option.splits)
  with well_formed have "well_formed (?s0\<lparr>regs := (regs ?s0)(next_obj ?s0 \<mapsto> ?r)\<rparr>)"
    by (intro wf_new_reg) simp_all
  moreover have "well_formed (snd (on n l opts s)) = well_formed (?s0\<lparr>regs := (regs ?s0)(next_obj ?s0 \<mapsto> ?r)\<rparr>)"
    by (rule wf_cong) (simp_all add: on_def Let_def split_beta)
  ultimately show ?thesis by simp
qed

lemma wf_once: "well_formed s \<Longrightarrow> well_formed (snd (once n l s))"
  by (simp add: once_def wf_on)

lemma wf_wrappedListener: "well_formed s \<Longrightarrow> well_formed (wrappedListener w d s)"
proof (cases "regs s w")
  case None
  then show "well_formed s \<Longrightarrow> well_formed (wrappedListener w d s)" by (simp add: wrappedListener_def)
next
  case (Some r)
  assume well_formed: "well_formed s"
  let ?opts = "reg_options r"
  let ?td = "case Option.bind ?opts opt_transform of None \<Rightarrow> d | Some f \<Rightarrow> f d"
  let ?D = "case Option.bind ?opts opt_debounce of None \<Rightarrow> 0 | Some x \<Rightarrow> x"
  let ?s2 = "snd (setTimeout (ListenerFire w ?td) ?D (clear_if_set (debounceTimer r) s))"
  let ?armed = "?s2\<lparr>regs := (regs ?s2)(w \<mapsto> r\<lparr>debounceTimer := Some (next_tid s)\<rparr>)\<rparr>"
  have armed: "well_formed ?armed"
    by (rule wf_arm_listener [OF well_formed Some, where d = "now s + timer_delay ?D" and x = ?td
          and r' = "r\<lparr>debounceTimer := Some (next_tid s)\<rparr>"])
       (simp_all add: timers_clear_if_set)
  have thr: "well_formed (executeListener w ?td (s\<lparr>regs := (regs s)(w \<mapsto> r\<lparr>lastCallTime := now s\<rparr>)\<rparr>))"
    by (intro wf_executeListener wf_update_reg [OF well_formed Some]) simp
  have dir: "well_formed (executeListener w ?td s)"
    using well_formed by (rule wf_executeListener)
  show "well_formed (wrappedListener w d s)"
    using Some well_formed armed thr dir
    by (simp add: wrappedListener_def Let_def split_beta)
qed

lemma wf_emit_each: "well_formed s \<Longrightarrow> well_formed (emit_each a d ws s)"
  by (induction ws arbitrary: s) (simp_all add: wf_wrappedListener)

lemma wf_emit: "well_formed s \<Longrightarrow> well_formed (emit n d s)"
  by (simp add: emit_def wf_emit_each split: option.splits)

lemma reachable_wf: "reachable s \<Longrightarrow> well_formed s"
proof (induction rule: reachable.induct)
  case (fresh t)
  show ?case by (rule wf_fresh_bus)
next
  case (loaded t ss ls)
  show ?case by (rule wf_loaded_bus)
next
  case (by_subscribe s n cb h s')
  then show ?case using wf_subscribe by blast
qed (simp_all add: wf_channel wf_publish wf_unsubscribe wf_clear wf_emit wf_on wf_once wf_off
       wf_unlisten wf_advance)

subsection \<open>Listeners registered once, and unlisten\<close>

text \<open>
  A listener registered with \<^verbatim>\<open>once\<close> and without debounce that never throws is called
  at most once, whatever is emitted afterwards and however long one waits
  (\<open>once_listener_that_returns_runs_once\<close>). Calling \<^verbatim>\<open>unlisten\<close> twice in a row
  is calling it once, and removing the last listener of a set deletes the entry of the name.
\<close>

lemma listener_calls_append [simp]:
  "listener_calls w (xs @ ys) = listener_calls w xs @ listener_calls w ys"
  by (simp add: listener_calls_def)

lemma listener_calls_simps [simp]:
  "listener_calls w [] = []"
  "listener_calls w ((t, ListenerCall e w' k v) # tr) = (if w' = w then [v] else []) @ listener_calls w tr"
  "listener_calls w ((t, HookOnInit m v) # tr) = listener_calls w tr"
  "listener_calls w ((t, HookOnChange m v v') # tr) = listener_calls w tr"
  "listener_calls w ((t, HookOnClear m) # tr) = listener_calls w tr"
  "listener_calls w ((t, SubscriberCall m k v) # tr) = listener_calls w tr"
  "listener_calls w ((t, ConsoleWarn m v) # tr) = listener_calls w tr"
  "listener_calls w ((t, ConsoleError m) # tr) = listener_calls w tr"
  "listener_calls w ((t, ConsoleLog) # tr) = listener_calls w tr"
  by (simp_all add: listener_calls_def)

lemma listener_calls_call_events [simp]:
  "listener_calls w (call_events nm (HookOnInit m v) out t) = []"
  "listener_calls w (call_events nm (HookOnChange m v v') out t) = []"
  "listener_calls w (call_events nm (HookOnClear m) out t) = []"
  by (simp_all add: call_events_def split: outcome.splits)

lemma regs_unlisten [simp]: "regs (unlisten w s) = regs s"
  by (simp add: unlisten_def Let_def split: option.splits)

lemma regs_clear [simp]: "regs (clear m s) = regs s"
  by (simp add: clear_def Let_def split: option.splits)

lemma listener_calls_clear [simp]: "listener_calls w (trace (clear m s)) = listener_calls w (trace s)"
  by (simp add: clear_def Let_def split: option.splits)

lemma executeListener_other:
  assumes "w' \<noteq> w"
  shows "regs (executeListener w' d s) w = regs s w"
    and "listener_calls w (trace (executeListener w' d s)) = listener_calls w (trace s)"
  using assms
  by (simp_all add: executeListener_def Let_def split: option.splits outcome.splits)

lemma wrappedListener_other:
  assumes "w' \<noteq> w"
  shows "regs (wrappedListener w' d s) w = regs s w"
    and "listener_calls w (trace (wrappedListener w' d s)) = listener_calls w (trace s)"
    and "t \<in> set (timers (wrappedListener w' d s)) \<Longrightarrow> action t = ListenerFire w x \<Longrightarrow> t \<in> set (timers s)"
proof -
  show "regs (wrappedListener w' d s) w = regs s w"
    using assms
    by (cases "regs s w'")
       (simp_all add: wrappedListener_def Let_def split_beta executeListener_other)
  show "listener_calls w (trace (wrappedListener w' d s)) = listener_calls w (trace s)"
    using assms
    by (cases "regs s w'")
       (simp_all add: wrappedListener_def Let_def split_beta executeListener_other)
  show "t \<in> set (timers (wrappedListener w' d s)) \<Longrightarrow> action t = ListenerFire w x \<Longrightarrow> t \<in> set (timers s)"
  proof (cases "regs s w'")
    case None
    then show "t \<in> set (timers (wrappedListener w' d s)) \<Longrightarrow> t \<in> set (timers s)"
      by (simp add: wrappedListener_def)
  next
    case (Some r)
    assume t: "t \<in> set (timers (wrappedListener w' d s))" and a: "action t = ListenerFire w x"
    have e: "set (timers (executeListener w' y s')) \<subseteq> set (timers s')" for y s'
      by (rule timers_executeListener_subset)
    have "t \<in> set (timers s) \<or> (\<exists>y. action t = ListenerFire w' y)"
      using t Some e [of _ s] e [of _ "s\<lparr>regs := (regs s)(w' \<mapsto> r\<lparr>lastCallTime := now s\<rparr>)\<rparr>"]
      by (auto simp add: wrappedListener_def Let_def split_beta timers_clear_if_set split: if_splits)
    with a assms show "t \<in> set (timers s)" by auto
  qed
qed

lemma once_budget_unlisten:
  "once_budget w l opts b s \<Longrightarrow> once_budget w l opts b (unlisten w' s)"
  using timers_unlisten_subset [of w' s] by (auto simp: once_budget_def)

lemma executeListener_own:
  assumes "regs s w = Some r" and "reg_listener r = l" and "reg_options r = opts"
    and "\<not> hasExecuted r" and "is_once opts" and "\<forall>d. cb_run l d = Returned"
    and "length (listener_calls w (trace s)) + 1 \<le> b"
    and "\<forall>t\<in>set (timers s). \<forall>d. action t \<noteq> ListenerFire w d"
  shows "once_budget w l opts b (executeListener w x s)"
proof -
  let ?s1 = "say (ListenerCall (reg_eventName r) w (cb_id l) x) s"
  let ?s2 = "?s1\<lparr>regs := (regs ?s1)(w \<mapsto> r\<lparr>hasExecuted := True\<rparr>)\<rparr>"
  have "once_budget w l opts b ?s2"
    using assms by (simp add: once_budget_def)
  then have "once_budget w l opts b (unlisten w ?s2)"
    by (rule once_budget_unlisten)
  moreover have "executeListener w x s = unlisten w ?s2"
    using assms(1,2,3,5,6) by (simp add: executeListener_def Let_def)
  ultimately show ?thesis by simp
qed

lemma wrappedListener_own:
  assumes "once_budget w l opts b s" and "is_once opts"
    and "\<not> truthy (Option.bind opts opt_debounce)" and "\<forall>d. cb_run l d = Returned"
  shows "once_budget w l opts b (wrappedListener w d s)"
proof -
  from assms(1) obtain r where r: "regs s w = Some r" "reg_listener r = l" "reg_options r = opts"
    and bud: "length (listener_calls w (trace s)) + (if hasExecuted r then 0 else 1) \<le> b"
    and tm: "\<forall>t\<in>set (timers s). \<forall>d. action t \<noteq> ListenerFire w d"
    by (auto simp: once_budget_def)
  show ?thesis
  proof (cases "hasExecuted r")
    case True
    then show ?thesis
      using r assms(1,2) by (simp add: wrappedListener_def)
  next
    case False
    let ?td = "case Option.bind opts opt_transform of None \<Rightarrow> d | Some f \<Rightarrow> f d"
    let ?s' = "s\<lparr>regs := (regs s)(w \<mapsto> r\<lparr>lastCallTime := now s\<rparr>)\<rparr>"
    have b1: "length (listener_calls w (trace s)) + 1 \<le> b"
      using bud False by simp
    have direct: "once_budget w l opts b (executeListener w ?td s)"
      by (rule executeListener_own [OF r False assms(2,4) b1 tm])
    have thr: "once_budget w l opts b (executeListener w ?td ?s')"
      using r False assms(2,4) b1 tm
      by (intro executeListener_own [where r = "r\<lparr>lastCallTime := now s\<rparr>"]) simp_all
    show ?thesis
      using r False assms(1,3) direct thr
      by (simp add: wrappedListener_def Let_def)
  qed
qed

lemma wrappedListener_budget:
  assumes "once_budget w l opts b s" and "is_once opts"
    and "\<not> truthy (Option.bind opts opt_debounce)" and "\<forall>d. cb_run l d = Returned"
  shows "once_budget w l opts b (wrappedListener w' d s)"
proof (cases "w' = w")
  case True
  with wrappedListener_own [OF assms] show ?thesis by simp
next
  case False
  from wrappedListener_other [OF False] assms(1) show ?thesis
    unfolding once_budget_def by metis
qed

lemma emit_each_budget:
  assumes "once_budget w l opts b s" and "is_once opts"
    and "\<not> truthy (Option.bind opts opt_debounce)" and "\<forall>d. cb_run l d = Returned"
  shows "once_budget w l opts b (emit_each a d ws s)"
  using assms(1)
  by (induction ws arbitrary: s) (simp_all add: wrappedListener_budget [OF _ assms(2-4)])

lemma emit_budget:
  assumes "once_budget w l opts b s" and "is_once opts"
    and "\<not> truthy (Option.bind opts opt_debounce)" and "\<forall>d. cb_run l d = Returned"
  shows "once_budget w l opts b (emit n d s)"
  using assms(1) emit_each_budget [OF _ assms(2-4)]
  by (simp add: emit_def split: option.splits)

lemma step_budget:
  assumes "once_budget w l opts b s" and "t \<in> set (timers s)"
  shows "once_budget w l opts b (fire_timer t (begin_timer t s))"
proof -
  from assms have nw: "\<forall>d. action t \<noteq> ListenerFire w d"
    by (auto simp: once_budget_def)
  have sub: "set (timers (fire_timer t (begin_timer t s))) \<subseteq> set (timers s)"
    by (rule step_timers_subset)
  have keep: "regs (fire_timer t (begin_timer t s)) w = regs s w
      \<and> listener_calls w (trace (fire_timer t (begin_timer t s))) = listener_calls w (trace s)"
  proof (cases "action t")
    case (TtlClear m)
    then show ?thesis by (simp add: fire_timer_def begin_timer_def)
  next
    case (OnChangeFire m f a b')
    then show ?thesis by (simp add: fire_timer_def begin_timer_def)
  next
    case (ListenerFire w' d)
    with nw have "w' \<noteq> w" by auto
    from executeListener_other [OF this] ListenerFire show ?thesis
      by (simp add: fire_timer_def begin_timer_def)
  qed
  with assms(1) sub show ?thesis
    unfolding once_budget_def by (metis subsetD)
qed

lemma run_until_budget:
  "once_budget w l opts b s \<Longrightarrow> once_budget w l opts b (run_until T s)"
proof (induction T s rule: run_until.induct)
  case (1 T s)
  show ?case
  proof (cases "next_due T (timers s)")
    case None
    then show ?thesis
      using "1.prems" by (subst run_until.simps) (simp add: once_budget_def)
  next
    case (Some t)
    then have "t \<in> set (timers s)" by (rule next_due_Some)
    from "1.IH" [OF Some step_budget [OF "1.prems" this]] Some show ?thesis
      by (subst run_until.simps) simp
  qed
qed

lemma emit_after_budget:
  assumes "once_budget w l opts b s" and "is_once opts"
    and "\<not> truthy (Option.bind opts opt_debounce)" and "\<forall>d. cb_run l d = Returned"
  shows "once_budget w l opts b (emit_after xs s)"
  using assms(1)
proof (induction xs arbitrary: s)
  case Nil
  then show ?case by simp
next
  case (Cons x xs)
  obtain g n d where x: "x = (g, n, d)" by (cases x)
  have "once_budget w l opts b (emit n d (advance g s))"
    by (intro emit_budget [OF _ assms(2-4)]) (simp add: advance_def run_until_budget Cons.prems)
  from Cons.IH [OF this] show ?case by (simp add: x)
qed

lemma once_listener_that_returns_runs_once:
  assumes "regs s w = Some r" and "is_once (reg_options r)"
    and "\<not> truthy (Option.bind (reg_options r) opt_debounce)"
    and "\<forall>d. cb_run (reg_listener r) d = Returned"
    and "\<forall>t\<in>set (timers s). \<forall>d. action t \<noteq> ListenerFire w d"
  shows "length (listener_calls w (trace (emit_after xs s)))
           \<le> length (listener_calls w (trace s)) + (if hasExecuted r then 0 else 1)"
proof -
  let ?b = "length (listener_calls w (trace s)) + (if hasExecuted r then 0 else 1)"
  have "once_budget w (reg_listener r) (reg_options r) ?b s"
    using assms(1,5) by (simp add: once_budget_def)
  then have "once_budget w (reg_listener r) (reg_options r) ?b (emit_after xs s)"
    by (rule emit_after_budget [OF _ assms(2-4)])
  then obtain k :: nat where "length (listener_calls w (trace (emit_after xs s))) + k \<le> ?b"
    by (auto simp: once_budget_def)
  then show ?thesis
    by linarith
qed

lemma unlisten_idempotent: "unlisten w (unlisten w s) = unlisten w s"
proof (cases "regs s w")
  case None
  then show ?thesis by (simp add: unlisten_def)
next
  case (Some r)
  show ?thesis
  proof (cases "filter (\<lambda>x. x \<noteq> w) (set_at s (reg_listeners r)) = []")
    case True
    then show ?thesis
      using Some
      by (cases "debounceTimer r")
         (simp_all add: unlisten_def Let_def set_at_def clear_if_set_def clearTimeout_def)
  next
    case False
    then show ?thesis
      using Some
      by (cases "debounceTimer r")
         (simp_all add: unlisten_def Let_def set_at_def clear_if_set_def clearTimeout_def)
  qed
qed

lemma unlisten_last_deletes_entry:
  assumes "regs s w = Some r" and "set_at s (reg_listeners r) = [w]"
  shows "eventListeners (unlisten w s) (reg_eventName r) = None"
  using assms by (simp add: unlisten_def Let_def set_at_def)

subsection \<open>Stored values that do not read back\<close>

text \<open>
  Publishing \<^verbatim>\<open>undefined\<close> to a channel with a store leaves the text \<^verbatim>\<open>undefined\<close>
  under its key. A channel created later on that key logs the error of reading it and
  starts with its \<^verbatim>\<open>initialValue\<close>.
\<close>

lemma unreadable_entry_is_reported:
  "(let s1 = publish ''a'' Undefined
               (channel ''a'' (Some (no_config\<lparr>storage := Some Local, storageKey := Some ''k''\<rparr>))
                  (fresh_bus 1000));
        s2 = channel ''b'' (Some (no_config\<lparr>storage := Some Local, storageKey := Some ''k'',
                                    initialValue := JNum 1\<rparr>)) s1
    in localStorage s1 ''k'' = Some Undefined
     \<and> trace s2 = trace s1 @ [(1000, ConsoleError ''localStorage'')]
     \<and> getValue ''b'' s2 = JNum 1)"
  by (simp add: chan_defs getValue_def store_name_def)

subsection \<open>Delays beyond the range of a timer\<close>

text \<open>
  A TTL of 30 days and a debounce of \<open>2\<^sup>3\<^sup>1\<close> ms both make a timer that runs at once: the
  channel is cleared, and \<^verbatim>\<open>onChange\<close> is called, as soon as the event loop takes its
  next turn.
\<close>

lemma ttl_beyond_timer_range:
  "getValue ''c'' (channel ''c'' (Some (no_config\<lparr>initialValue := JNum 1, ttl := Some 2592000000\<rparr>))
       (fresh_bus 1000)) = JNum 1
   \<and> channels (advance 0 (channel ''c'' (Some (no_config\<lparr>initialValue := JNum 1, ttl := Some 2592000000\<rparr>))
       (fresh_bus 1000))) ''c'' = None"
  by (simp add: chan_defs time_defs getValue_def timer_delay_def)

lemma debounce_beyond_timer_range:
  "onChange_calls ''c'' (trace (advance 0 (publish ''c'' (JNum 1)
       (channel ''c'' (Some (debounce_cfg\<lparr>debounce := Some 2147483648\<rparr>)) (fresh_bus 1000)))))
     = [(1000, JNum 1, Undefined)]"
  by (simp add: debounce_cfg_def chan_defs time_defs getValue_def call_events_def timer_delay_def)

section \<open>The claims\<close>

text \<open>
  C1. On an existing channel whose \<^verbatim>\<open>validate\<close> hook returns false on the published
  value, \<^verbatim>\<open>publish\<close> changes nothing but the console: the bus afterwards is the bus
  before with one warning appended to the trace. So the channel's value, both stores and
  the timers are as before, and no hook and no subscriber was called.
\<close>

theorem publish_rejected:
  assumes "channels s n = Some ch" and "ch_config ch = Some c"
    and "validate c = Some f" and "\<not> f v"
  shows "publish n v s = s\<lparr>trace := trace s @ [(now s, ConsoleWarn n v)]\<rparr>"
  using assms by (simp add: publish_def say_def)

theorem publish_rejected_witness:
  "publish ''cart'' (JNum 0) demo_bus
     = demo_bus\<lparr>trace := trace demo_bus @ [(now demo_bus, ConsoleWarn ''cart'' (JNum 0))]\<rparr>"
  by (rule publish_rejected [where ch = demo_channel and c = demo_cfg and f = "\<lambda>v. v \<noteq> JNum 0"])
     (simp_all add: demo_bus_def demo_channel_def demo_cfg_def no_config_def)

text \<open>
  C2. On an existing channel with a \<^verbatim>\<open>transform\<close> hook \<open>f\<close>, a published value
  \<open>v\<close> that passes validation (the check is made on \<open>v\<close> itself, before the transform)
  leaves \<open>f v\<close> as the channel's value, writes \<open>f v\<close> under the channel's key for the
  session and local modes, and calls every subscriber once, on \<open>f v\<close>.
\<close>

theorem publish_transformed:
  assumes "channels s n = Some ch" and "ch_config ch = Some c" and "transform c = Some f"
    and "accepted c v"
  shows "getValue n (publish n v s) = f v
     \<and> (ch_storage ch = Session \<longrightarrow> sessionStorage (publish n v s) (ch_storageKey ch) = Some (f v))
     \<and> (ch_storage ch = Local \<longrightarrow> localStorage (publish n v s) (ch_storageKey ch) = Some (f v))
     \<and> subscriber_calls n (trace (publish n v s))
         = subscriber_calls n (trace s) @ map (\<lambda>cb. (cb_id cb, f v)) (ch_subscribers ch)"
  using assms
  by (simp add: publish_def getValue_def accepted_def Let_def split_beta notify_eq
        executeOnChange_frame saveToStorage_def subscriber_calls_notify_events split: option.splits)

theorem publish_transformed_witness:
  "getValue ''cart'' (publish ''cart'' (JNum 4) demo_bus) = JNum 5
   \<and> sessionStorage (publish ''cart'' (JNum 4) demo_bus) ''lithium:cart'' = Some (JNum 5)
   \<and> subscriber_calls ''cart'' (trace (publish ''cart'' (JNum 4) demo_bus)) = [(7, JNum 5)]"
  using publish_transformed [where s = demo_bus and n = "''cart''" and ch = demo_channel
      and c = demo_cfg and f = "\<lambda>v. case v of JNum k \<Rightarrow> JNum (k + 1) | _ \<Rightarrow> v" and v = "JNum 4"]
  by (simp add: demo_bus_def demo_channel_def demo_cfg_def no_config_def fresh_bus_def quiet_def
        accepted_def)



text \<open>
  C4, as stated, fails: a channel with \<^verbatim>\<open>debounce\<close> 100 and \<^verbatim>\<open>ttl\<close> 50 is
  published to once; the TTL timer clears the channel 50 ms later, which cancels the debounce
  timer, and \<^verbatim>\<open>onChange\<close> is never called.
\<close>

theorem debounce_cancelled_by_ttl:
  "getValue ''c'' (publish ''c'' (JNum 1)
       (channel ''c'' (Some (debounce_cfg\<lparr>ttl := Some 50\<rparr>)) (fresh_bus 1000))) = JNum 1
   \<and> onChange_calls ''c'' (trace (advance 500 (publish ''c'' (JNum 1)
       (channel ''c'' (Some (debounce_cfg\<lparr>ttl := Some 50\<rparr>)) (fresh_bus 1000))))) = []"
  by (simp add: debounce_cfg_def chan_defs time_defs getValue_def call_events_def)

text \<open>
  C4, amended. On a channel with \<^verbatim>\<open>onChange\<close> and \<^verbatim>\<open>debounce\<close> \<open>D\<close>, with
  \<open>0 < D < 2\<^sup>3\<^sup>1\<close> (the range of a timer's delay), in a well-formed bus, a run of accepted
  publishes, each less than \<open>D\<close> ms after the one before, followed by a wait of at least
  \<open>D\<close> ms, adds exactly one \<^verbatim>\<open>onChange\<close> call, \<open>D\<close> ms after the last publish, on the
  last transformed value and the channel's value just before the last publish, provided
  the channel's TTL timer (if one is pending) is not due by then.
\<close>

theorem debounce_last_wins:
  assumes "well_formed s" and "channels s n = Some ch" and "ch_config ch = Some c"
    and "onChange c = Some f" and "debounce c = Some D" and "0 < D"
    and "accepted c v" and "\<forall>gw\<in>set gvs. fst gw < D \<and> accepted c (snd gw)"
    and "D \<le> g_end"
    and "\<forall>t\<in>set (timers s). action t = TtlClear n \<longrightarrow> now s + sum_list (map fst gvs) + D < due t"
    and "D < 2147483648"
  shows "onChange_calls n (trace (advance g_end (publish_after n gvs (publish n v s)))) =
     onChange_calls n (trace s) @
       [(now s + sum_list (map fst gvs) + D,
         last (map (transformed c) (v # map snd gvs)),
         last (butlast (ch_signal ch # map (transformed c) (v # map snd gvs))))]"
proof -
  let ?s1 = "publish n v s"
  note p = publish_debounce [OF assms(2-7)]
  from p(1) obtain ch' where ch': "channels ?s1 n = Some ch'" "ch_config ch' = Some c"
      "ch_signal ch' = transformed c v"
    by blast
  let ?new = "\<lparr>tid = next_tid s, due = now s + D,
                action = OnChangeFire n f (transformed c v) (ch_signal ch)\<rparr>"
  have wf1: "well_formed ?s1"
    using wf_publish_debounce [OF assms(1-7)] .
  have new: "?new \<in> set (timers ?s1)"
    using assms(11) by (simp add: p(3))
  have ttl: "\<forall>t\<in>set (timers ?s1). action t = TtlClear n \<longrightarrow>
       now ?s1 + sum_list (map fst gvs) + D < due t"
    using assms(10) by (auto simp: p(3))
  have "onChange_calls n (trace (advance g_end (publish_after n gvs ?s1))) =
     onChange_calls n (trace ?s1) @
       [(now ?s1 + sum_list (map fst gvs) + D,
         fst (final_pair c (transformed c v, ch_signal ch) gvs),
         snd (final_pair c (transformed c v, ch_signal ch) gvs))]"
    by (rule debounce_burst [OF wf1 ch'(1,2) assms(4-6) new _ _ ch'(3) assms(8,9) ttl assms(11)])
       simp_all
  then show ?thesis
    by (simp add: p(4) final_pair_last o_def)
qed

theorem debounce_last_wins_witness:
  "onChange_calls ''c'' (trace (advance 100 (publish_after ''c'' [(30, JNum 2), (99, JNum 3)]
       (publish ''c'' (JNum 1) (channel ''c'' (Some (debounce_cfg\<lparr>ttl := Some 5000\<rparr>)) (fresh_bus 1000))))))
     = [(1229, JNum 3, JNum 2)]"
proof -
  let ?c = "debounce_cfg\<lparr>ttl := Some 5000\<rparr>"
  let ?s = "channel ''c'' (Some ?c) (fresh_bus 1000)"
  let ?ch = "\<lparr>ch_id = 0, ch_signal = Undefined, ch_storage = Memory, ch_storageKey = ''lithium:c'',
      ch_subscribers = [], ch_ttl = Some 5000, ch_autoCleanup = False, ch_createdAt = 1000,
      ch_config = Some ?c, ch_isInitialized = False, ch_timeoutId = Some 1,
      ch_onChangeDebounceTimer = None, ch_onChangeLastCall = None\<rparr>"
  have s: "channels ?s ''c'' = Some ?ch" "timers ?s = [\<lparr>tid = 1, due = 6000, action = TtlClear ''c''\<rparr>]"
    "now ?s = 1000" "trace ?s = []"
    by (simp_all add: debounce_cfg_def chan_defs)
  have c: "onChange ?c = Some (\<lambda>a b. Returned)" "debounce ?c = Some 100"
    "accepted ?c v" "transformed ?c = (\<lambda>v. v)" for v
    by (simp_all add: debounce_cfg_def no_config_def accepted_def transformed_def fun_eq_iff)
  from debounce_last_wins [where s = ?s and n = "''c''" and ch = ?ch and c = ?c and D = 100
      and v = "JNum 1" and gvs = "[(30, JNum 2), (99, JNum 3)]" and g_end = 100,
      OF wf_demo s(1) _ c(1,2) _ c(3)]
  show ?thesis
    by (simp add: s c)
qed

text \<open>
  C5, as stated, fails: on a channel with \<^verbatim>\<open>throttle\<close> 100 whose \<^verbatim>\<open>onChange\<close> has
  just been called, two accepted publishes 10 ms apart are both dropped.
\<close>

theorem throttle_two_publishes_none_fires:
  "(let s1 = publish ''c'' (JNum 1) (channel ''c'' (Some throttle_cfg) (fresh_bus 1000));
        s2 = publish ''c'' (JNum 2) (advance 10 s1);
        s3 = publish ''c'' (JNum 3) (advance 10 s2)
    in getValue ''c'' s2 = JNum 2 \<and> getValue ''c'' s3 = JNum 3
     \<and> onChange_calls ''c'' (trace (advance 500 s3)) = onChange_calls ''c'' (trace s1))"
  by (simp add: throttle_cfg_def chan_defs time_defs getValue_def call_events_def)

text \<open>
  C5, amended. In a well-formed bus, on a channel with \<^verbatim>\<open>onChange\<close>,
  \<^verbatim>\<open>throttle\<close> \<open>T > 0\<close> and no debounce, whose last \<^verbatim>\<open>onChange\<close> call (time 0 when there was none) is at least \<open>T\<close> ms
  back, and whose TTL timer (if one is pending) is not due before the third publish: the
  first of three accepted publishes calls \<^verbatim>\<open>onChange\<close> at once; a second publish less
  than \<open>T\<close> ms later adds no call, however long one waits afterwards; a third publish at
  least \<open>T\<close> ms after the first adds the second call, on the third value and the second as
  the old value.
\<close>

theorem throttle_first_and_third:
  assumes "channels s n = Some ch" and "ch_config ch = Some c" and "onChange c = Some f"
    and "\<not> truthy (debounce c)" and "throttle c = Some T" and "0 < T"
    and "accepted c v1" and "accepted c v2" and "accepted c v3"
    and "(case ch_onChangeLastCall ch of None \<Rightarrow> 0 | Some l \<Rightarrow> l) + T \<le> now s"
    and "g1 < T" and "T \<le> g1 + g2"
    and "well_formed s"
    and "\<forall>t\<in>set (timers s). action t = TtlClear n \<longrightarrow> now s + g1 + g2 < due t"
  shows "onChange_calls n (trace (publish n v1 s)) =
           onChange_calls n (trace s) @ [(now s, transformed c v1, ch_signal ch)]
    \<and> onChange_calls n (trace (advance g3 (publish n v2 (advance g1 (publish n v1 s))))) =
           onChange_calls n (trace (publish n v1 s))
    \<and> onChange_calls n (trace (advance g3
          (publish n v3 (advance g2 (publish n v2 (advance g1 (publish n v1 s))))))) =
           onChange_calls n (trace s) @ [(now s, transformed c v1, ch_signal ch),
             (now s + g1 + g2, transformed c v3, transformed c v2)]"
proof -
  let ?s1 = "publish n v1 s"
  let ?s1' = "advance g1 ?s1"
  let ?s2 = "publish n v2 ?s1'"
  let ?s2' = "advance g2 ?s2"
  let ?s3 = "publish n v3 ?s2'"
  note cfg = assms(2-6)
  have quiet: "\<forall>t\<in>set (timers s). \<forall>f' a b. action t \<noteq> OnChangeFire n f' a b"
  proof (intro ballI allI notI)
    fix t f' a b assume t: "t \<in> set (timers s)" and a: "action t = OnChangeFire n f' a b"
    from wf_parts(6) [OF assms(13) t] a
    have "\<exists>ch c. channels s n = Some ch \<and> ch_config ch = Some c \<and> truthy (debounce c)"
      by (auto simp: owned_def)
    with assms(1,2,4) show False
      by auto
  qed
  \<comment> \<open>first publish\<close>
  from publish_throttle [OF assms(1) cfg assms(7)] assms(10)
  obtain ch1 where ch1: "channels ?s1 n = Some ch1" "ch_config ch1 = Some c"
      "ch_signal ch1 = transformed c v1" "ch_onChangeLastCall ch1 = Some (now s)"
    and tr1: "onChange_calls n (trace ?s1) = onChange_calls n (trace s) @ [(now s, transformed c v1, ch_signal ch)]"
    and tm1: "timers ?s1 = timers s"
    by auto
  \<comment> \<open>waiting g1\<close>
  have nd1: "\<forall>t\<in>set (timers ?s1). \<forall>f' a b. action t \<noteq> OnChangeFire n f' a b"
    using quiet tm1 by simp
  have ttl1: "\<forall>t\<in>set (timers ?s1). action t = TtlClear n \<longrightarrow> now ?s1 + g1 < due t"
    using assms(14) tm1 by fastforce
  have ch1': "channels ?s1' n = Some ch1"
    using run_until_channels [OF ttl1] ch1(1) by (simp add: advance_def)
  have now1': "now ?s1' = now s + g1"
    by (simp add: advance_def)
  have tm1': "set (timers ?s1') \<subseteq> set (timers s)"
    using run_until_timers_subset [of "now ?s1 + g1" ?s1] tm1 by (simp add: advance_def)
  have tr1': "onChange_calls n (trace ?s1') = onChange_calls n (trace ?s1)"
    using run_until_onChange [OF nd1] by (simp add: advance_def)
  \<comment> \<open>second publish: dropped\<close>
  have notready: "\<not> (case ch_onChangeLastCall ch1 of None \<Rightarrow> 0 | Some l \<Rightarrow> l) + T \<le> now ?s1'"
    using assms(11) by (simp add: ch1(4) now1')
  from publish_throttle [OF ch1' ch1(2) cfg(2-5) assms(8)] notready
  obtain ch2 where ch2: "channels ?s2 n = Some ch2" "ch_config ch2 = Some c"
      "ch_signal ch2 = transformed c v2" "ch_onChangeLastCall ch2 = Some (now s)"
    and tr2: "onChange_calls n (trace ?s2) = onChange_calls n (trace ?s1')"
    and tm2: "timers ?s2 = timers ?s1'"
    using ch1(4) by auto
  have now2: "now ?s2 = now s + g1"
    by (simp add: now1')
  have nd2: "\<forall>t\<in>set (timers ?s2). \<forall>f' a b. action t \<noteq> OnChangeFire n f' a b"
    using quiet tm1' tm2 by auto
  have late2: "onChange_calls n (trace (advance g3 ?s2)) = onChange_calls n (trace ?s2)"
    using run_until_onChange [OF nd2] by (simp add: advance_def)
  \<comment> \<open>waiting g2\<close>
  have ttl2: "\<forall>t\<in>set (timers ?s2). action t = TtlClear n \<longrightarrow> now ?s2 + g2 < due t"
    using assms(14) tm1' tm2 by (auto simp: now1')
  have ch2': "channels ?s2' n = Some ch2"
    using run_until_channels [OF ttl2] ch2(1) by (simp add: advance_def)
  have now2': "now ?s2' = now s + g1 + g2"
    by (simp add: advance_def now1')
  have tm2': "set (timers ?s2') \<subseteq> set (timers s)"
    using run_until_timers_subset [of "now ?s2 + g2" ?s2] tm2 tm1' by (simp add: advance_def)
  have tr2': "onChange_calls n (trace ?s2') = onChange_calls n (trace ?s2)"
    using run_until_onChange [OF nd2] by (simp add: advance_def)
  \<comment> \<open>third publish: fires\<close>
  have ready: "(case ch_onChangeLastCall ch2 of None \<Rightarrow> 0 | Some l \<Rightarrow> l) + T \<le> now ?s2'"
    using assms(12) by (simp add: ch2(4) now2')
  from publish_throttle(2,3) [OF ch2' ch2(2) cfg(2-5) assms(9)] ready
  have tr3: "onChange_calls n (trace ?s3) = onChange_calls n (trace ?s2') @
        [(now s + g1 + g2, transformed c v3, transformed c v2)]"
    and tm3: "timers ?s3 = timers ?s2'"
    by (simp_all add: now2' ch2(3))
  have nd3: "\<forall>t\<in>set (timers ?s3). \<forall>f' a b. action t \<noteq> OnChangeFire n f' a b"
    using quiet tm2' tm3 by auto
  have late3: "onChange_calls n (trace (advance g3 ?s3)) = onChange_calls n (trace ?s3)"
    using run_until_onChange [OF nd3] by (simp add: advance_def)
  show ?thesis
    using tr1 tr1' tr2 late2 tr2' tr3 late3 by simp
qed

theorem throttle_first_and_third_witness:
  "(let s = channel ''c'' (Some throttle_cfg) (fresh_bus 1000);
        s1 = publish ''c'' (JNum 1) s;
        s2 = publish ''c'' (JNum 2) (advance 10 s1);
        s3 = publish ''c'' (JNum 3) (advance 100 s2)
    in onChange_calls ''c'' (trace s1) = [(1000, JNum 1, Undefined)]
     \<and> onChange_calls ''c'' (trace (advance 500 s2)) = [(1000, JNum 1, Undefined)]
     \<and> onChange_calls ''c'' (trace (advance 500 s3)) = [(1000, JNum 1, Undefined), (1110, JNum 3, JNum 2)])"
proof -
  let ?s = "channel ''c'' (Some throttle_cfg) (fresh_bus 1000)"
  let ?ch = "\<lparr>ch_id = 0, ch_signal = Undefined, ch_storage = Memory, ch_storageKey = ''lithium:c'',
      ch_subscribers = [], ch_ttl = None, ch_autoCleanup = False, ch_createdAt = 1000,
      ch_config = Some throttle_cfg, ch_isInitialized = False, ch_timeoutId = None,
      ch_onChangeDebounceTimer = None, ch_onChangeLastCall = None\<rparr>"
  have s: "channels ?s ''c'' = Some ?ch" "timers ?s = []" "now ?s = 1000" "trace ?s = []"
    by (simp_all add: throttle_cfg_def chan_defs)
  have w: "well_formed ?s"
    by (intro wf_channel wf_fresh_bus)
  have c: "onChange throttle_cfg = Some (\<lambda>a b. Returned)" "\<not> truthy (debounce throttle_cfg)"
    "throttle throttle_cfg = Some 100" "accepted throttle_cfg v" "transformed throttle_cfg v = v" for v
    by (simp_all add: throttle_cfg_def no_config_def truthy_def accepted_def transformed_def)
  from throttle_first_and_third [where s = ?s and n = "''c''" and ch = ?ch and c = throttle_cfg
      and T = 100 and ?v1.0 = "JNum 1" and ?v2.0 = "JNum 2" and ?v3.0 = "JNum 3"
      and ?g1.0 = 10 and ?g2.0 = 100 and ?g3.0 = 500, OF s(1) _ c(1,2,3) _ c(4,4,4) _ _ _ w]
  show ?thesis
    by (simp add: s c Let_def)
qed

text \<open>
  C6. On a channel with \<^verbatim>\<open>autoCleanup\<close> set, calling the unsubscribe function of the
  only subscriber left deletes the channel from the registry, calls \<^verbatim>\<open>onClear\<close> when the
  channel has that hook, cancels the TTL timer and the debounce timer (and no other), and
  removes the stored entry in the session and local modes.
\<close>

theorem unsubscribe_last_clears:
  assumes "channels s n = Some ch" and "ch_autoCleanup ch"
    and "h_channelName h = n" and "h_object h = ch_id ch"
    and "ch_subscribers ch = [h_callback h]"
  shows "channels (unsubscribe h s) n = None
    \<and> trace (unsubscribe h s) = trace s @
         (case Option.bind (ch_config ch) onClear of
            None \<Rightarrow> []
          | Some out \<Rightarrow> call_events n (HookOnClear n) out (now s))
    \<and> timers (unsubscribe h s) =
         filter (\<lambda>t. tid t = 0 \<or> (ch_timeoutId ch \<noteq> Some (tid t) \<and> ch_onChangeDebounceTimer ch \<noteq> Some (tid t)))
           (timers s)
    \<and> (ch_storage ch = Session \<longrightarrow> sessionStorage (unsubscribe h s) (ch_storageKey ch) = None)
    \<and> (ch_storage ch = Local \<longrightarrow> localStorage (unsubscribe h s) (ch_storageKey ch) = None)"
proof -
  let ?ch' = "ch\<lparr>ch_subscribers := []\<rparr>"
  let ?s1 = "s\<lparr>channels := (channels s)(n \<mapsto> ?ch')\<rparr>"
  have u: "unsubscribe h s = clear n ?s1"
    using assms by (simp add: unsubscribe_def Let_def set_delete_def)
  have c: "channels ?s1 n = Some ?ch'"
    by simp
  show ?thesis
    unfolding u
    by (auto simp add: clear_def c Let_def timers_clear_if_set removeFromStorage_def
          split: option.splits intro!: filter_cong)
qed

theorem unsubscribe_last_clears_witness:
  "channels (unsubscribe demo_handle demo_bus2) ''cart'' = None
   \<and> trace (unsubscribe demo_handle demo_bus2) = trace demo_bus2 @ [(1000, HookOnClear ''cart'')]
   \<and> timers (unsubscribe demo_handle demo_bus2) = []
   \<and> sessionStorage (unsubscribe demo_handle demo_bus2) ''lithium:cart'' = None"
proof -
  have h: "ch_autoCleanup demo_channel2" "h_channelName demo_handle = ''cart''"
    "h_object demo_handle = ch_id demo_channel2" "ch_subscribers demo_channel2 = [h_callback demo_handle]"
    by (simp_all add: demo_channel2_def demo_channel_def demo_handle_def)
  have n: "now demo_bus2 = 1000"
    by (simp add: demo_bus2_def publish_def demo_bus_def demo_channel_def demo_cfg_def
        no_config_def fresh_bus_def quiet_def executeOnChange_def Let_def truthy_def setTimeout_def
        clear_if_set_def saveToStorage_def try_call_def say_def notify_eq)
  from unsubscribe_last_clears [OF demo_bus2_channel h] show ?thesis
    by (simp add: demo_bus2_timers n demo_channel2_def demo_channel_def demo_cfg_def no_config_def
          call_events_def)
qed

text \<open>
  C7, at the failing input. A listener registered with \<^verbatim>\<open>once\<close> that throws is
  called again by the next \<^verbatim>\<open>emit\<close>, and its wrapper stays registered: the flag
  \<^verbatim>\<open>hasExecuted\<close> and the self-removal come after the call inside the
  \<^verbatim>\<open>try\<close> block.
\<close>

theorem once_listener_that_throws_runs_again:
  "(let (w, s1) = once ''e'' (faulty 1) (fresh_bus 0);
        s2 = emit ''e'' (JNum 1) s1;
        s3 = emit ''e'' (JNum 2) s2
    in listener_calls w (trace s3) = [JNum 1, JNum 2]
     \<and> eventListeners s3 ''e'' \<noteq> None)"
  by (simp add: bus_defs)

text \<open>
  C8, at the failing input. After \<^verbatim>\<open>u = on('a', l1); u(); on('a', l2)\<close> a second
  call of \<^verbatim>\<open>u\<close> deletes the entry of \<^verbatim>\<open>'a'\<close>, which by then holds the set of
  the second registration: \<^verbatim>\<open>l2\<close> is no longer reached by \<^verbatim>\<open>emit\<close>.
\<close>

theorem unlisten_twice_removes_new_registration:
  "(let (u1, s1) = on ''a'' (quiet 1) None (fresh_bus 0);
        s2 = unlisten u1 s1;
        (u2, s3) = on ''a'' (quiet 2) None s2;
        s4 = unlisten u1 s3
    in eventListeners s2 ''a'' = None
     \<and> eventListeners s3 ''a'' \<noteq> None
     \<and> listener_calls u2 (trace (emit ''a'' (JNum 5) s3)) = [JNum 5]
     \<and> eventListeners s4 ''a'' = None
     \<and> listener_calls u2 (trace (emit ''a'' (JNum 5) s4)) = [])"
  by (simp add: bus_defs)

text \<open>
  C9. Publishing to a name with no channel is the call
  \<^verbatim>\<open>channel(name, { initialValue: value })\<close> and nothing more: afterwards the name has
  a channel in memory mode with that value, no subscribers and no hooks, and the trace,
  the timers and both stores are as before, so no hook and no subscriber was called.
\<close>

theorem publish_implicit:
  assumes "channels s n = None"
  shows "publish n v s = channel n (Some (no_config\<lparr>initialValue := v\<rparr>)) s
    \<and> getValue n (publish n v s) = v
    \<and> trace (publish n v s) = trace s
    \<and> timers (publish n v s) = timers s
    \<and> sessionStorage (publish n v s) = sessionStorage s
    \<and> localStorage (publish n v s) = localStorage s
    \<and> (\<exists>ch. channels (publish n v s) n = Some ch \<and> ch_signal ch = v \<and> ch_storage ch = Memory
           \<and> ch_subscribers ch = [] \<and> ch_config ch = Some (no_config\<lparr>initialValue := v\<rparr>)
           \<and> ch_ttl ch = None \<and> \<not> ch_autoCleanup ch \<and> ch_storageKey ch = ''lithium:'' @ n)
    \<and> (\<forall>m. m \<noteq> n \<longrightarrow> channels (publish n v s) m = channels s m)"
  using assms
  by (simp add: publish_def channel_def init_def no_config_def getFromStorage_def getValue_def Let_def)

theorem publish_implicit_witness:
  "getValue ''fresh'' (publish ''fresh'' (JStr ''x'') demo_bus) = JStr ''x''
   \<and> trace (publish ''fresh'' (JStr ''x'') demo_bus) = trace demo_bus"
proof -
  have h: "channels demo_bus ''fresh'' = None"
    by (simp add: demo_bus_def)
  from publish_implicit [OF h] show ?thesis
    by blast
qed

text \<open>
  C10. While the debounce timer \<open>t\<close> of a registration for event \<open>n\<close> is pending,
  \<^verbatim>\<open>off(n)\<close> deletes the entry of \<open>n\<close> and leaves every timer pending; when \<open>t\<close>
  then runs, the listener is called. The registration's own \<^verbatim>\<open>unlisten\<close> removes
  \<open>t\<close> from the pending timers.
\<close>

theorem off_keeps_debounce_timer:
  assumes "regs s w = Some r" and "reg_eventName r = n"
    and "debounceTimer r = Some (tid t)" and "t \<in> set (timers s)"
    and "action t = ListenerFire w d"
  shows "eventListeners (off n s) n = None
    \<and> timers (off n s) = timers s
    \<and> trace (fire_timer t (begin_timer t (off n s))) =
         trace s @ (max (now s) (due t), ListenerCall n w (cb_id (reg_listener r)) d)
           # (case cb_run (reg_listener r) d of Returned \<Rightarrow> [] | Threw \<Rightarrow> [(max (now s) (due t), ConsoleError n)])
    \<and> (tid t \<noteq> 0 \<longrightarrow> t \<notin> set (timers (unlisten w s)))"
proof -
  have a: "eventListeners (off n s) n = None" "timers (off n s) = timers s"
    by (simp_all add: off_def)
  have ul: "trace (unlisten w s') = trace s'" for s'
    by (simp add: unlisten_def Let_def split: option.splits)
  have b: "trace (fire_timer t (begin_timer t (off n s))) =
         trace s @ (max (now s) (due t), ListenerCall n w (cb_id (reg_listener r)) d)
           # (case cb_run (reg_listener r) d of Returned \<Rightarrow> [] | Threw \<Rightarrow> [(max (now s) (due t), ConsoleError n)])"
    using assms
    by (simp add: fire_timer_def begin_timer_def off_def executeListener_def Let_def ul say_def
          split: outcome.splits)
  have c: "tid t \<noteq> 0 \<longrightarrow> t \<notin> set (timers (unlisten w s))"
    using assms by (simp add: unlisten_def Let_def timers_clear_if_set)
  from a b c show ?thesis by blast
qed

theorem off_keeps_debounce_timer_witness:
  "eventListeners (off ''tick'' demo_events) ''tick'' = None
   \<and> timers (off ''tick'' demo_events) = [demo_timer]
   \<and> trace (fire_timer demo_timer (begin_timer demo_timer (off ''tick'' demo_events)))
       = [(1050, ListenerCall ''tick'' 1 3 (JNum 1))]
   \<and> timers (unlisten (Suc 0) demo_events) = []
   \<and> listener_calls (Suc 0) (trace (advance 50 (off ''tick'' demo_events))) = [JNum 1]
   \<and> listener_calls (Suc 0) (trace (advance 50 (unlisten (Suc 0) demo_events))) = []"
proof -
  have h: "demo_timer \<in> set (timers demo_events)" "action demo_timer = ListenerFire (Suc 0) (JNum 1)"
    by (simp_all add: demo_events_eval) (simp add: demo_timer_def)
  have u: "timers (unlisten (Suc 0) demo_events) = []"
    by (simp add: unlisten_def demo_events_eval Let_def timers_clear_if_set demo_timer_def)
  have r: "listener_calls (Suc 0) (trace (advance 50 (off ''tick'' demo_events))) = [JNum 1]
     \<and> listener_calls (Suc 0) (trace (advance 50 (unlisten (Suc 0) demo_events))) = []"
    by (simp add: demo_events_def demo_opts_def bus_defs time_defs)
  from off_keeps_debounce_timer [OF demo_events_eval(1) _ _ h, of "''tick''"] u r show ?thesis
    by (simp add: demo_events_eval demo_timer_def quiet_def)
qed

end
